theory Spec2Isabelle
  imports Main "HOL-Library.Word"
begin

section \<open>Buffers and byte reads\<close>

text \<open>
  The routines of \<^verbatim>\<open>fastwildcompare.cpp\<close> walk \<^verbatim>\<open>char *\<close> pointers forward over
  read-only memory: a pointer is incremented, or set to a saved pointer, and read; no pointer
  is decremented and no two pointers are compared.  A pointer is therefore modelled by the
  bytes that lie at and after it: \<open>*p\<close> is the head of the list,
  \<open>*(k + p)\<close> the head after dropping \<open>k\<close> bytes, \<open>++p\<close> the tail and \<open>p += n\<close> is
  \<open>drop n\<close>.  The list is the finite extent of memory that is written down; every byte after
  it reads as zero.  The C string held by a buffer is the run of bytes before its first zero;
  whatever the list holds after that zero is the memory that follows the terminator.
\<close>

type_synonym byte = "8 word"
type_synonym buffer = "byte list"

definition deref :: "buffer \<Rightarrow> byte" where
  "deref p = (case p of [] \<Rightarrow> 0 | b # _ \<Rightarrow> b)"

definition deref_at :: "nat \<Rightarrow> buffer \<Rightarrow> byte" where
  "deref_at k p = deref (drop k p)"

definition cstring :: "buffer \<Rightarrow> byte list" where
  "cstring p = takeWhile (\<lambda>b. b \<noteq> 0) p"

definition SINGLETON_LIMIT :: byte where "SINGLETON_LIMIT = 0xBF"
definition TWOFER_LIMIT :: byte where "TWOFER_LIMIT = 0xDF"
definition THREESOME_LIMIT :: byte where "THREESOME_LIMIT = 0xEF"

definition STAR :: byte where "STAR = 0x2A"
definition QMARK :: byte where "QMARK = 0x3F"

text \<open>An ASCII literal as the bytes of a buffer, one byte per character.\<close>

definition ascii :: "string \<Rightarrow> buffer" where
  "ascii s = map (\<lambda>c. of_nat (of_char c)) s"

section \<open>The unit cursor\<close>

text \<open>
  \<^verbatim>\<open>CodePointAdvance\<close> adds four truth values to the pointer: one for a non-zero lead byte
  and one for each trailing byte that the lead byte calls for and that is itself non-zero.
  \<open>advance_width\<close> is that sum.
\<close>

definition advance_width :: "buffer \<Rightarrow> nat" where
  "advance_width p =
     of_bool (deref p > 0) +
     of_bool (deref p > SINGLETON_LIMIT \<and> deref_at 1 p \<noteq> 0) +
     of_bool (deref p > TWOFER_LIMIT \<and> deref_at 2 p \<noteq> 0) +
     of_bool (deref p > THREESOME_LIMIT \<and> deref_at 3 p \<noteq> 0)"

text \<open>The result pairs the returned flag with the updated pointer.\<close>

definition CodePointAdvance :: "buffer \<Rightarrow> bool \<times> buffer" where
  "CodePointAdvance p = (let p' = drop (advance_width p) p in (deref p' \<noteq> 0, p'))"

definition CodePointCompare :: "buffer \<Rightarrow> buffer \<Rightarrow> bool" where
  "CodePointCompare a b =
     (if deref a \<noteq> deref b then False
      else if deref a > SINGLETON_LIMIT \<and> deref_at 1 a \<noteq> deref_at 1 b then False
      else if deref a > TWOFER_LIMIT \<and> deref_at 2 a \<noteq> deref_at 2 b then False
      else if deref a > THREESOME_LIMIT \<and> deref_at 3 a \<noteq> deref_at 3 b then False
      else True)"

definition CodePointAdvanceAndCompare :: "buffer \<Rightarrow> buffer \<Rightarrow> bool \<times> buffer" where
  "CodePointAdvanceAndCompare a b =
     (let b' = drop (advance_width b) b in (CodePointCompare a b', b'))"

section \<open>Well-formed units\<close>

text \<open>
  \<open>unit_width\<close> is the width that the lead byte of a unit calls for: the number of bytes
  that \<^verbatim>\<open>CodePointCompare\<close> examines, and the step of \<^verbatim>\<open>CodePointAdvance\<close> when no trailing
  byte is zero.  A unit is well formed when it has exactly that many bytes and none of them
  is zero; nothing is asked of the trailing bytes beyond that, so a trailing byte may have
  the value of \<open>*\<close> or \<open>?\<close>.  \<open>unit_starts us rest\<close> lists the positions of a pattern made
  of the units \<open>us\<close> and followed by \<open>rest\<close> at which a unit starts, the position of \<open>rest\<close>
  included.
\<close>

definition unit_width :: "byte \<Rightarrow> nat" where
  "unit_width b =
     1 + of_bool (b > SINGLETON_LIMIT) + of_bool (b > TWOFER_LIMIT) +
     of_bool (b > THREESOME_LIMIT)"

definition well_formed_unit :: "buffer \<Rightarrow> bool" where
  "well_formed_unit u \<longleftrightarrow> u \<noteq> [] \<and> 0 \<notin> set u \<and> length u = unit_width (hd u)"

fun unit_starts :: "buffer list \<Rightarrow> buffer \<Rightarrow> buffer list" where
  "unit_starts [] rest = [rest]"
| "unit_starts (u # us) rest = (u @ concat us @ rest) # unit_starts us rest"

section \<open>Basic facts about reads and advancing\<close>

lemma deref_Nil [simp]: "deref [] = 0"
  by (simp add: deref_def)

lemma deref_Cons [simp]: "deref (b # p) = b"
  by (simp add: deref_def)

lemma deref_at_0 [simp]: "deref_at 0 p = deref p"
  by (simp add: deref_at_def)

lemma deref_at_Nil [simp]: "deref_at k [] = 0"
  by (simp add: deref_at_def)

lemma deref_at_Suc_Cons [simp]: "deref_at (Suc k) (b # p) = deref_at k p"
  by (simp add: deref_at_def)

lemma ascii_wildcards: "ascii ''*?'' = [STAR, QMARK]"
  by (simp add: ascii_def STAR_def QMARK_def)

lemma deref_nonzero_Cons: "deref p \<noteq> 0 \<Longrightarrow> \<exists>b q. p = b # q \<and> b \<noteq> 0"
  by (cases p) auto

lemma advance_width_zero: "deref p = 0 \<Longrightarrow> advance_width p = 0"
  by (simp add: advance_width_def SINGLETON_LIMIT_def TWOFER_LIMIT_def THREESOME_LIMIT_def)

lemma advance_at_zero: "deref p = 0 \<Longrightarrow> CodePointAdvance p = (False, p)"
  by (simp add: CodePointAdvance_def advance_width_zero)

lemma advance_width_pos: "deref p \<noteq> 0 \<Longrightarrow> 0 < advance_width p"
  by (simp add: advance_width_def word_greater_zero_iff)

lemma advance_width_le4: "advance_width p \<le> 4"
  by (simp add: advance_width_def of_bool_def)

lemma length_advance_le: "length (snd (CodePointAdvance p)) \<le> length p"
  by (simp add: CodePointAdvance_def Let_def)

lemma length_advance_less:
  "deref p \<noteq> 0 \<Longrightarrow> length (snd (CodePointAdvance p)) < length p"
  using advance_width_pos [of p] deref_nonzero_Cons [of p]
  by (auto simp: CodePointAdvance_def Let_def)

lemma deref_STAR_nonempty: "deref p = STAR \<Longrightarrow> p \<noteq> []"
  by (auto simp: STAR_def)

lemma deref_QMARK_nonempty: "deref p = QMARK \<Longrightarrow> p \<noteq> []"
  by (auto simp: QMARK_def)

lemma deref_tl_STAR_nonempty: "deref (tl p) = STAR \<Longrightarrow> p \<noteq> []"
  by (auto simp: STAR_def)

lemma advance_shrinks:
  "(True, p') = CodePointAdvance p \<Longrightarrow> length p' < length p"
proof -
  assume "(True, p') = CodePointAdvance p"
  then have a: "CodePointAdvance p = (True, p')" by simp
  then have p': "p' = drop (advance_width p) p" and nz: "deref p' \<noteq> 0"
    by (auto simp: CodePointAdvance_def Let_def)
  have "deref p \<noteq> 0"
  proof
    assume "deref p = 0"
    then have "p' = p" using p' by (simp add: advance_width_zero)
    with nz \<open>deref p = 0\<close> show False by simp
  qed
  then show ?thesis using length_advance_less [of p] a by simp
qed

lemma advance_compare_shrinks:
  "(same, b') = CodePointAdvanceAndCompare a b \<Longrightarrow> deref b' \<noteq> 0 \<Longrightarrow> length b' < length b"
proof -
  assume "(same, b') = CodePointAdvanceAndCompare a b" and nz: "deref b' \<noteq> 0"
  then have "(True, b') = CodePointAdvance b"
    by (auto simp: CodePointAdvanceAndCompare_def CodePointAdvance_def Let_def)
  then show ?thesis by (rule advance_shrinks)
qed

text \<open>
  \<^verbatim>\<open>CodePointCount\<close>: the count starts at one for a non-empty string and grows by one for each
  advance that reports a further unit.  \<^verbatim>\<open>size_t\<close> is modelled by \<open>nat\<close>.
\<close>

function count_loop :: "buffer \<Rightarrow> nat \<Rightarrow> nat" where
  "count_loop p iCount =
     (case CodePointAdvance p of
        (more, p') \<Rightarrow> if more then count_loop p' (iCount + 1) else iCount)"
  by pat_completeness auto
termination
  by (relation "measure (\<lambda>(p, iCount). length p)") (auto dest: advance_shrinks)

declare count_loop.simps [simp del]

definition CodePointCount :: "buffer \<Rightarrow> nat" where
  "CodePointCount pContent = count_loop pContent (of_bool (deref pContent > 0))"

section \<open>The unbounded matcher\<close>

text \<open>
  The inner \<^verbatim>\<open>while\<close> loops of \<^verbatim>\<open>FastWildCompareUtf8\<close>, one function each.

  \<open>trailing_stars\<close> is the loop taken when the subject is exhausted and the pattern is not:
  \<^verbatim>\<open>while (*pWild == '*') { if (!(*(++pWild))) return true; } return false;\<close>
\<close>

function trailing_stars :: "buffer \<Rightarrow> bool" where
  "trailing_stars pWild =
     (if deref pWild = STAR
      then (if deref (tl pWild) = 0 then True else trailing_stars (tl pWild))
      else False)"
  by pat_completeness auto
termination
  by (relation "measure length") (auto dest: deref_STAR_nonempty deref_tl_STAR_nonempty)

declare trailing_stars.simps [simp del]

text \<open>
  \<open>skip_stars\<close> is the run collapse of the first loop:
  \<^verbatim>\<open>while (CodePointAdvance(&pWild) && *pWild == '*') continue;\<close>
\<close>

function skip_stars :: "buffer \<Rightarrow> buffer" where
  "skip_stars pWild =
     (case CodePointAdvance pWild of
        (more, pWild') \<Rightarrow> if more \<and> deref pWild' = STAR then skip_stars pWild' else pWild')"
  by pat_completeness auto
termination
  by (relation "measure length") (auto dest: advance_shrinks)

declare skip_stars.simps [simp del]

text \<open>
  \<open>find_next\<close> is the search for the next prospective match; \<open>None\<close> is its
  \<^verbatim>\<open>return false\<close>:
  \<^verbatim>\<open>while (!CodePointCompare(pWild, pTame)) { if (!CodePointAdvance(&pTame)) return false; }\<close>
\<close>

function find_next :: "buffer \<Rightarrow> buffer \<Rightarrow> buffer option" where
  "find_next pWild pTame =
     (if \<not> CodePointCompare pWild pTame
      then (case CodePointAdvance pTame of
              (more, pTame') \<Rightarrow> if \<not> more then None else find_next pWild pTame')
      else Some pTame)"
  by pat_completeness auto
termination
  by (relation "measure (\<lambda>(pWild, pTame). length pTame)") (auto dest: advance_shrinks)

declare find_next.simps [simp del]

text \<open>
  \<open>next_non_star\<close> is the run collapse of the second loop, which steps bytewise:
  \<^verbatim>\<open>while (*(++pWild) == '*') continue;\<close>
\<close>

function next_non_star :: "buffer \<Rightarrow> buffer" where
  "next_non_star pWild =
     (let pWild' = tl pWild in if deref pWild' = STAR then next_non_star pWild' else pWild')"
  by pat_completeness auto
termination
  by (relation "measure length") (auto dest: deref_STAR_nonempty deref_tl_STAR_nonempty)

declare next_non_star.simps [simp del]

text \<open>
  \<open>skip_questions\<close> is the loop in front of the fall back; both pointers step by one byte:
  \<^verbatim>\<open>while (*pWildSequence == '?') { ++pWildSequence; ++pTameSequence; }\<close>
\<close>

function skip_questions :: "buffer \<Rightarrow> buffer \<Rightarrow> buffer \<times> buffer" where
  "skip_questions pWildSequence pTameSequence =
     (if deref pWildSequence = QMARK
      then skip_questions (tl pWildSequence) (tl pTameSequence)
      else (pWildSequence, pTameSequence))"
  by pat_completeness auto
termination
  by (relation "measure (\<lambda>(pWildSequence, pTameSequence). length pWildSequence)")
     (auto dest: deref_QMARK_nonempty)

declare skip_questions.simps [simp del]

text \<open>
  \<open>retry\<close> is the fall-back loop; \<open>None\<close> is its \<^verbatim>\<open>return false\<close>:
  \<^verbatim>\<open>while (!CodePointAdvanceAndCompare(pWild, &pTameSequence))
  { if (!*pTameSequence) return false; }\<close>
\<close>

function retry :: "buffer \<Rightarrow> buffer \<Rightarrow> buffer option" where
  "retry pWild pTameSequence =
     (case CodePointAdvanceAndCompare pWild pTameSequence of
        (same, pTameSequence') \<Rightarrow>
          if same then Some pTameSequence'
          else if deref pTameSequence' = 0 then None
          else retry pWild pTameSequence')"
  by pat_completeness auto
termination
  by (relation "measure (\<lambda>(pWild, pTameSequence). length pTameSequence)")
     (auto dest: advance_compare_shrinks)

declare retry.simps [simp del]

text \<open>
  The second \<^verbatim>\<open>do ... while (true)\<close> loop works on four pointers: the two active positions
  and the fallback pair.  One pass through its body either returns a verdict (\<open>Inl\<close>) or
  hands the updated pointers to the next pass (\<open>Inr\<close>).
\<close>

type_synonym cursors = "buffer \<times> buffer \<times> buffer \<times> buffer"

text \<open>The check for the end, at the end of the body, and the two advances after it.\<close>

fun end_check :: "cursors \<Rightarrow> bool + cursors" where
  "end_check (pWild, pTame, pWildSequence, pTameSequence) =
     (if deref pTame = 0
      then (if deref pWild = 0 then Inl True else Inl False)
      else Inr (snd (CodePointAdvance pWild), snd (CodePointAdvance pTame),
                pWildSequence, pTameSequence))"

fun resume_body :: "cursors \<Rightarrow> bool + cursors" where
  "resume_body (pWild, pTame, pWildSequence, pTameSequence) =
     (if deref pWild = STAR then
        (let pWild = next_non_star pWild in
         if deref pWild = 0 then Inl True
         else if deref pTame = 0 then Inl False
         else (case (if deref pWild \<noteq> QMARK then find_next pWild pTame else Some pTame) of
                 None \<Rightarrow> Inl False
               | Some pTame \<Rightarrow> end_check (pWild, pTame, pWild, pTame)))
      else if \<not> CodePointCompare pWild pTame \<and> deref pWild \<noteq> QMARK then
        (if deref pTame = 0 then Inl False
         else (case skip_questions pWildSequence pTameSequence of
                 (pWildSequence, pTameSequence) \<Rightarrow>
                   (let pWild = pWildSequence in
                    case retry pWild pTameSequence of
                      None \<Rightarrow> Inl False
                    | Some pTameSequence \<Rightarrow>
                        end_check (pWild, pTameSequence, pWildSequence, pTameSequence))))
      else end_check (pWild, pTame, pWildSequence, pTameSequence))"

partial_function (option) resume_loop :: "cursors \<Rightarrow> bool option" where
  "resume_loop s =
     (case resume_body s of
        Inl verdict \<Rightarrow> Some verdict
      | Inr s' \<Rightarrow> resume_loop s')"

declare resume_loop.simps [code]

text \<open>
  The order in which the passes of the second loop descend: first the longer of the two
  subject suffixes (the saved and the active one), then the active subject suffix.
\<close>

definition resume_order :: "(cursors \<times> cursors) set" where
  "resume_order =
     inv_image (less_than <*lex*> less_than)
       (\<lambda>(pWild, pTame, pWildSequence, pTameSequence).
          (max (length pTameSequence) (length pTame), length pTame))"

text \<open>
  The first \<^verbatim>\<open>do ... while (true)\<close> loop runs until the first \<open>*\<close>; its \<^verbatim>\<open>break\<close> enters
  the second loop with the fallback pair set.
\<close>

partial_function (option) scan_loop :: "buffer \<Rightarrow> buffer \<Rightarrow> bool option" where
  "scan_loop pWild pTame =
     (if deref pTame = 0 then
        (if deref pWild \<noteq> 0 then Some (trailing_stars pWild) else Some True)
      else if deref pWild = STAR then
        (let pWild = skip_stars pWild in
         if deref pWild = 0 then Some True
         else (case (if deref pWild \<noteq> QMARK then find_next pWild pTame else Some pTame) of
                 None \<Rightarrow> Some False
               | Some pTame \<Rightarrow> resume_loop (pWild, pTame, pWild, pTame)))
      else if \<not> CodePointCompare pWild pTame \<and> deref pWild \<noteq> QMARK then Some False
      else scan_loop (snd (CodePointAdvance pWild)) (snd (CodePointAdvance pTame)))"

declare scan_loop.simps [code]

text \<open>A result \<open>None\<close> stands for a call that never returns.\<close>

definition FastWildCompareUtf8 :: "buffer \<Rightarrow> buffer \<Rightarrow> bool option" where
  "FastWildCompareUtf8 pWild pTame = scan_loop pWild pTame"

section \<open>The bounded matcher\<close>

text \<open>
  \<^verbatim>\<open>FastWildLenCompareUtf8\<close> repeats the two loops with unit counters of type \<^verbatim>\<open>int\<close>
  beside the pointers.  The counters are modelled by \<open>int\<close>: they only grow by one per step
  from zero, so they stay far below the 32-bit range for any buffer that fits in memory.

  First the inner loops.  \<open>len_trailing_stars\<close>:
  \<^verbatim>\<open>while (*(pWild++) == '*') { if (lenWild <= ++iWild) return true; } return false;\<close>
\<close>

function len_trailing_stars :: "int \<Rightarrow> buffer \<Rightarrow> int \<Rightarrow> bool" where
  "len_trailing_stars lenWild pWild iWild =
     (if deref pWild = STAR
      then (if lenWild \<le> iWild + 1 then True
            else len_trailing_stars lenWild (tl pWild) (iWild + 1))
      else False)"
  by pat_completeness auto
termination
  by (relation "measure (\<lambda>(lenWild, pWild, iWild). length pWild)")
     (auto dest: deref_STAR_nonempty)

declare len_trailing_stars.simps [simp del]

text \<open>
  \<open>len_skip_stars\<close>:
  \<^verbatim>\<open>while (CodePointAdvance(&pWild))
  { iWild++; if (*pWild == '*' && iWild < lenWild) continue; else break; }\<close>
\<close>

function len_skip_stars :: "int \<Rightarrow> buffer \<Rightarrow> int \<Rightarrow> buffer \<times> int" where
  "len_skip_stars lenWild pWild iWild =
     (case CodePointAdvance pWild of
        (more, pWild') \<Rightarrow>
          if more
          then (if deref pWild' = STAR \<and> iWild + 1 < lenWild
                then len_skip_stars lenWild pWild' (iWild + 1)
                else (pWild', iWild + 1))
          else (pWild', iWild))"
  by pat_completeness auto
termination
  by (relation "measure (\<lambda>(lenWild, pWild, iWild). length pWild)")
     (auto dest: advance_shrinks)

declare len_skip_stars.simps [simp del]

text \<open>
  \<open>len_find_next\<close>:
  \<^verbatim>\<open>while (!CodePointCompare(pWild, pTame))
  { if (!CodePointAdvance(&pTame)) return false; iTame++; }\<close>
\<close>

function len_find_next :: "buffer \<Rightarrow> buffer \<Rightarrow> int \<Rightarrow> (buffer \<times> int) option" where
  "len_find_next pWild pTame iTame =
     (if \<not> CodePointCompare pWild pTame
      then (case CodePointAdvance pTame of
              (more, pTame') \<Rightarrow>
                if \<not> more then None else len_find_next pWild pTame' (iTame + 1))
      else Some (pTame, iTame))"
  by pat_completeness auto
termination
  by (relation "measure (\<lambda>(pWild, pTame, iTame). length pTame)")
     (auto dest: advance_shrinks)

declare len_find_next.simps [simp del]

text \<open>
  \<open>len_next_non_star\<close>; \<open>None\<close> is its \<^verbatim>\<open>return true\<close>:
  \<^verbatim>\<open>while (*(++pWild) == '*') { if (lenWild <= ++iWild) return true; }\<close>
\<close>

function len_next_non_star :: "int \<Rightarrow> buffer \<Rightarrow> int \<Rightarrow> (buffer \<times> int) option" where
  "len_next_non_star lenWild pWild iWild =
     (let pWild' = tl pWild in
      if deref pWild' = STAR
      then (if lenWild \<le> iWild + 1 then None
            else len_next_non_star lenWild pWild' (iWild + 1))
      else Some (pWild', iWild))"
  by pat_completeness auto
termination
  by (relation "measure (\<lambda>(lenWild, pWild, iWild). length pWild)")
     (auto dest: deref_tl_STAR_nonempty)

declare len_next_non_star.simps [simp del]

text \<open>
  \<open>len_skip_questions\<close>:
  \<^verbatim>\<open>while (*pWildSequence == '?')
  { ++pWildSequence; ++pTameSequence; ++iWildSequence; ++iTameSequence; }\<close>
\<close>

function len_skip_questions ::
  "buffer \<Rightarrow> buffer \<Rightarrow> int \<Rightarrow> int \<Rightarrow> buffer \<times> buffer \<times> int \<times> int" where
  "len_skip_questions pWildSequence pTameSequence iWildSequence iTameSequence =
     (if deref pWildSequence = QMARK
      then len_skip_questions (tl pWildSequence) (tl pTameSequence)
             (iWildSequence + 1) (iTameSequence + 1)
      else (pWildSequence, pTameSequence, iWildSequence, iTameSequence))"
  by pat_completeness auto
termination
  by (relation "measure (\<lambda>(pWildSequence, pTameSequence, iWildSequence, iTameSequence).
                            length pWildSequence)")
     (auto dest: deref_QMARK_nonempty)

declare len_skip_questions.simps [simp del]

text \<open>
  \<open>len_retry\<close>; \<open>None\<close> is its \<^verbatim>\<open>return false\<close>:
  \<^verbatim>\<open>while (!CodePointAdvanceAndCompare(pWild, &pTameSequence))
  { if (lenTame <= ++iTameSequence || !*pTameSequence) return false; }\<close>
\<close>

function len_retry :: "int \<Rightarrow> buffer \<Rightarrow> buffer \<Rightarrow> int \<Rightarrow> (buffer \<times> int) option" where
  "len_retry lenTame pWild pTameSequence iTameSequence =
     (case CodePointAdvanceAndCompare pWild pTameSequence of
        (same, pTameSequence') \<Rightarrow>
          if same then Some (pTameSequence', iTameSequence)
          else if lenTame \<le> iTameSequence + 1 \<or> deref pTameSequence' = 0 then None
          else len_retry lenTame pWild pTameSequence' (iTameSequence + 1))"
  by pat_completeness auto
termination
  by (relation "measure (\<lambda>(lenTame, pWild, pTameSequence, iTameSequence).
                            length pTameSequence)")
     (auto dest: advance_compare_shrinks)

declare len_retry.simps [simp del]

text \<open>
  The state of the second loop: the four pointers, each with its counter.
\<close>

type_synonym len_cursors =
  "buffer \<times> buffer \<times> int \<times> int \<times> buffer \<times> buffer \<times> int \<times> int"

fun len_end_check :: "int \<Rightarrow> int \<Rightarrow> len_cursors \<Rightarrow> bool + len_cursors" where
  "len_end_check lenWild lenTame
       (pWild, pTame, iWild, iTame,
        pWildSequence, pTameSequence, iWildSequence, iTameSequence) =
     (if lenTame \<le> iTame \<or> deref pTame = 0
      then (if lenWild \<le> iWild \<or> deref pWild = 0 then Inl True else Inl False)
      else Inr (snd (CodePointAdvance pWild), snd (CodePointAdvance pTame),
                iWild + 1, iTame + 1,
                pWildSequence, pTameSequence, iWildSequence, iTameSequence))"

fun len_resume_body :: "int \<Rightarrow> int \<Rightarrow> len_cursors \<Rightarrow> bool + len_cursors" where
  "len_resume_body lenWild lenTame
       (pWild, pTame, iWild, iTame,
        pWildSequence, pTameSequence, iWildSequence, iTameSequence) =
     (if deref pWild = STAR then
        (case len_next_non_star lenWild pWild (iWild + 1) of
           None \<Rightarrow> Inl True
         | Some (pWild, iWild) \<Rightarrow>
             if lenWild \<le> iWild \<or> deref pWild = 0 then Inl True
             else if lenTame \<le> iTame \<or> deref pTame = 0 then Inl False
             else (case (if deref pWild \<noteq> QMARK then len_find_next pWild pTame iTame
                         else Some (pTame, iTame)) of
                     None \<Rightarrow> Inl False
                   | Some (pTame, iTame) \<Rightarrow>
                       len_end_check lenWild lenTame
                         (pWild, pTame, iWild, iTame, pWild, pTame, iWild, iTame)))
      else if \<not> CodePointCompare pWild pTame \<and> deref pWild \<noteq> QMARK then
        (if lenTame \<le> iTame \<or> deref pTame = 0 then Inl False
         else (case len_skip_questions pWildSequence pTameSequence
                      iWildSequence iTameSequence of
                 (pWildSequence, pTameSequence, iWildSequence, iTameSequence) \<Rightarrow>
                   (let pWild = pWildSequence; iWild = iWildSequence in
                    case len_retry lenTame pWild pTameSequence iTameSequence of
                      None \<Rightarrow> Inl False
                    | Some (pTameSequence, iTameSequence) \<Rightarrow>
                        len_end_check lenWild lenTame
                          (pWild, pTameSequence, iWild, iTameSequence,
                           pWildSequence, pTameSequence, iWildSequence, iTameSequence))))
      else len_end_check lenWild lenTame
             (pWild, pTame, iWild, iTame,
              pWildSequence, pTameSequence, iWildSequence, iTameSequence))"

partial_function (option) len_resume_loop :: "int \<Rightarrow> int \<Rightarrow> len_cursors \<Rightarrow> bool option" where
  "len_resume_loop lenWild lenTame s =
     (case len_resume_body lenWild lenTame s of
        Inl verdict \<Rightarrow> Some verdict
      | Inr s' \<Rightarrow> len_resume_loop lenWild lenTame s')"

declare len_resume_loop.simps [code]

text \<open>The passes of the bounded second loop descend in the same order.\<close>

definition len_resume_order :: "(len_cursors \<times> len_cursors) set" where
  "len_resume_order =
     inv_image (less_than <*lex*> less_than)
       (\<lambda>(pWild, pTame, iWild, iTame,
           pWildSequence, pTameSequence, iWildSequence, iTameSequence).
          (max (length pTameSequence) (length pTame), length pTame))"

text \<open>
  The first loop.  \<open>iWild\<close> counts the units passed in both inputs; \<open>iTame\<close> takes its value
  when the first \<open>*\<close> is met.
\<close>

partial_function (option) len_scan_loop ::
  "int \<Rightarrow> int \<Rightarrow> buffer \<Rightarrow> buffer \<Rightarrow> int \<Rightarrow> bool option" where
  "len_scan_loop lenWild lenTame pWild pTame iWild =
     (if lenTame \<le> iWild \<or> deref pTame = 0 then
        (if lenWild > iWild \<and> deref pWild \<noteq> 0
         then Some (len_trailing_stars lenWild pWild iWild)
         else Some True)
      else if lenWild \<le> iWild then Some False
      else if deref pWild = STAR then
        (let iTame = iWild in
         case len_skip_stars lenWild pWild iWild of
           (pWild, iWild) \<Rightarrow>
             if deref pWild = 0 then Some True
             else (case (if deref pWild \<noteq> QMARK then len_find_next pWild pTame iTame
                         else Some (pTame, iTame)) of
                     None \<Rightarrow> Some False
                   | Some (pTame, iTame) \<Rightarrow>
                       len_resume_loop lenWild lenTame
                         (pWild, pTame, iWild, iTame, pWild, pTame, iWild, iTame)))
      else if \<not> CodePointCompare pWild pTame \<and> deref pWild \<noteq> QMARK then Some False
      else len_scan_loop lenWild lenTame
             (snd (CodePointAdvance pWild)) (snd (CodePointAdvance pTame)) (iWild + 1))"

declare len_scan_loop.simps [code]

definition FastWildLenCompareUtf8 :: "buffer \<Rightarrow> buffer \<Rightarrow> int \<Rightarrow> int \<Rightarrow> bool option" where
  "FastWildLenCompareUtf8 pWild pTame lenWild lenTame =
     len_scan_loop lenWild lenTame pWild pTame 0"

section \<open>Strings of single-byte units\<close>

text \<open>
  A string whose bytes are all non-zero and none of which is above \<open>SINGLETON_LIMIT\<close>: every
  byte is a whole unit.  \<open>pointers\<close> forgets the counters of a state of the bounded matcher;
  \<open>counters_agree\<close> says that the counters of such a state fit its pointers: a pattern
  counter and the units left at its pointer add up to the pattern limit, and a subject
  counter and the units left at its pointer stay within the subject limit.
\<close>

definition single_byte_units :: "buffer \<Rightarrow> bool" where
  "single_byte_units s \<longleftrightarrow> (\<forall>b \<in> set s. b \<noteq> 0 \<and> \<not> b > SINGLETON_LIMIT)"

fun pointers :: "len_cursors \<Rightarrow> cursors" where
  "pointers (pWild, pTame, iWild, iTame,
             pWildSequence, pTameSequence, iWildSequence, iTameSequence) =
     (pWild, pTame, pWildSequence, pTameSequence)"

fun counters_agree :: "int \<Rightarrow> int \<Rightarrow> len_cursors \<Rightarrow> bool" where
  "counters_agree lenWild lenTame
       (pWild, pTame, iWild, iTame,
        pWildSequence, pTameSequence, iWildSequence, iTameSequence) \<longleftrightarrow>
     single_byte_units pWild \<and> single_byte_units pTame \<and>
     single_byte_units pWildSequence \<and> single_byte_units pTameSequence \<and>
     (pWild \<noteq> [] \<longrightarrow> iWild + int (length pWild) = lenWild) \<and>
     (pWildSequence \<noteq> [] \<longrightarrow> iWildSequence + int (length pWildSequence) = lenWild) \<and>
     (pTame \<noteq> [] \<longrightarrow> iTame + int (length pTame) \<le> lenTame) \<and>
     (pTameSequence \<noteq> [] \<longrightarrow> iTameSequence + int (length pTameSequence) \<le> lenTame)"

section \<open>The wildcard syntax on units\<close>

text \<open>
  The verdicts of the matcher are compared with a reference that follows the wildcard syntax
  of the specification, not the code.  A pattern and a subject are lists of units.  The
  single-byte unit \<open>*\<close> matches zero or more subject units, the single-byte unit \<open>?\<close> matches
  exactly one subject unit, and any other pattern unit matches the subject unit with the same
  bytes.  A multi-byte unit is never a wildcard in \<open>spec_match\<close>, whatever the values of its
  trailing bytes.
\<close>

fun spec_match :: "buffer list \<Rightarrow> buffer list \<Rightarrow> bool" where
  "spec_match [] vs \<longleftrightarrow> vs = []"
| "spec_match (u # us) [] \<longleftrightarrow> u = [STAR] \<and> spec_match us []"
| "spec_match (u # us) (v # vs) \<longleftrightarrow>
     (if u = [STAR] then spec_match us (v # vs) \<or> spec_match (u # us) vs
      else (u = [QMARK] \<or> u = v) \<and> spec_match us vs)"

text \<open>
  The patterns in which no \<open>?\<close> unit follows a \<open>*\<close> unit.  On these the fall back of the
  second loop never runs its \<open>?\<close> skip, the one step of the matcher that moves a subject
  pointer by bytes instead of units.
\<close>

definition no_question_after_star :: "buffer list \<Rightarrow> bool" where
  "no_question_after_star us \<longleftrightarrow> [QMARK] \<notin> set (dropWhile (\<lambda>u. u \<noteq> [STAR]) us)"

section \<open>Properties of the unit cursor\<close>

text \<open>
  C9: when the byte at the current position is the zero terminator, \<^verbatim>\<open>CodePointAdvance\<close>
  leaves the position where it is and returns false.
\<close>

theorem CodePointAdvance_at_terminator:
  "deref p = 0 \<Longrightarrow> CodePointAdvance p = (False, p)"
  by (rule advance_at_zero)

theorem CodePointAdvance_at_terminator_witness:
  "deref [0, 0x41] = 0 \<and> CodePointAdvance [0, 0x41] = (False, [0, 0x41])"
  using CodePointAdvance_at_terminator [of "[0, 0x41]"] by simp

text \<open>
  C3 (the code departs from the claim): the truth values that \<^verbatim>\<open>CodePointAdvance\<close> adds are
  independent of each other, so a zero first trailing byte does not keep the second or third
  trailing byte from counting.  On the bytes \<open>E0 00 41\<close> the lead byte calls for three bytes,
  the byte at offset 1 is zero, and the position still moves by two, to offset 2, past that
  zero.  \<^verbatim>\<open>CodePointAdvanceAndCompare\<close> moves its second pointer the same way.
\<close>

theorem CodePointAdvance_passes_zero:
  "deref_at 1 [0xE0, 0, 0x41] = 0 \<and>
   advance_width [0xE0, 0, 0x41] = 2 \<and>
   CodePointAdvance [0xE0, 0, 0x41] = (True, [0x41]) \<and>
   CodePointAdvanceAndCompare [0x41] [0xE0, 0, 0x41] = (True, [0x41])"
  by code_simp

section \<open>Termination\<close>

text \<open>
  The inner searches never move a subject pointer backward, and the fall back moves the
  saved subject pointer strictly forward whenever the loop goes on.
\<close>

lemma find_next_length: "find_next pWild pTame = Some t \<Longrightarrow> length t \<le> length pTame"
proof (induction pWild pTame rule: find_next.induct)
  case (1 pWild pTame)
  show ?case
  proof (cases "CodePointCompare pWild pTame")
    case True
    with "1.prems" show ?thesis by (simp add: find_next.simps [of pWild pTame])
  next
    case False
    obtain more pTame' where adv: "CodePointAdvance pTame = (more, pTame')"
      by (cases "CodePointAdvance pTame")
    with False "1.prems" have more: more and rec: "find_next pWild pTame' = Some t"
      by (auto simp: find_next.simps [of pWild pTame] split: if_splits)
    from "1.IH" [OF False adv [symmetric]] more rec have "length t \<le> length pTame'" by simp
    moreover have "length pTame' < length pTame"
      using advance_shrinks [of pTame' pTame] adv more by simp
    ultimately show ?thesis by simp
  qed
qed

lemma skip_questions_length:
  "skip_questions pWildSequence pTameSequence = (ws, ts) \<Longrightarrow> length ts \<le> length pTameSequence"
proof (induction pWildSequence pTameSequence rule: skip_questions.induct)
  case (1 pWildSequence pTameSequence)
  show ?case
  proof (cases "deref pWildSequence = QMARK")
    case True
    with "1.prems" have "skip_questions (tl pWildSequence) (tl pTameSequence) = (ws, ts)"
      by (simp add: skip_questions.simps [of pWildSequence pTameSequence])
    from "1.IH" [OF True this] show ?thesis by simp
  next
    case False
    with "1.prems" show ?thesis
      by (simp add: skip_questions.simps [of pWildSequence pTameSequence])
  qed
qed

lemma retry_length:
  "retry pWild pTameSequence = Some ts \<Longrightarrow> deref ts \<noteq> 0 \<Longrightarrow> length ts < length pTameSequence"
proof (induction pWild pTameSequence rule: retry.induct)
  case (1 pWild pTameSequence)
  obtain same ts' where ac: "CodePointAdvanceAndCompare pWild pTameSequence = (same, ts')"
    by (cases "CodePointAdvanceAndCompare pWild pTameSequence")
  show ?case
  proof (cases same)
    case True
    with ac "1.prems" have "ts = ts'"
      by (simp add: retry.simps [of pWild pTameSequence])
    with advance_compare_shrinks [OF ac [symmetric]] "1.prems" show ?thesis by simp
  next
    case False
    with ac "1.prems" have nz: "deref ts' \<noteq> 0" and rec: "retry pWild ts' = Some ts"
      by (auto simp: retry.simps [of pWild pTameSequence] split: if_splits)
    from "1.IH" [OF ac [symmetric] False nz rec "1.prems"(2)] have "length ts < length ts'" .
    moreover have "length ts' < length pTameSequence"
      using advance_compare_shrinks [OF ac [symmetric] nz] .
    ultimately show ?thesis by simp
  qed
qed

lemma wf_resume_order: "wf resume_order"
  by (simp add: resume_order_def wf_lex_prod)

lemma end_check_Inr:
  "end_check (w, t, ws, ts) = Inr s' \<Longrightarrow>
   \<exists>w' t'. s' = (w', t', ws, ts) \<and> length t' < length t"
  using length_advance_less [of t] by (auto split: if_splits)

lemma resume_body_decreases:
  assumes "resume_body s = Inr s'"
  shows "(s', s) \<in> resume_order"
proof -
  obtain w t ws ts where s: "s = (w, t, ws, ts)" by (cases s)
  show ?thesis
  proof (cases "deref w = STAR")
    case True
    with assms s obtain t1 where
      t1: "(if deref (next_non_star w) \<noteq> QMARK then find_next (next_non_star w) t else Some t) = Some t1"
      and e: "end_check (next_non_star w, t1, next_non_star w, t1) = Inr s'"
      by (auto simp: Let_def simp del: end_check.simps split: if_splits option.splits)
    from t1 have "length t1 \<le> length t"
      by (auto split: if_splits dest: find_next_length)
    moreover from end_check_Inr [OF e] obtain w' t' where
      "s' = (w', t', next_non_star w, t1)" "length t' < length t1" by blast
    ultimately show ?thesis using s by (auto simp: resume_order_def)
  next
    case False
    show ?thesis
    proof (cases "\<not> CodePointCompare w t \<and> deref w \<noteq> QMARK")
      case True
      obtain ws1 ts1 where sq: "skip_questions ws ts = (ws1, ts1)"
        by (cases "skip_questions ws ts")
      with assms s False True obtain ts2 where
        r: "retry ws1 ts1 = Some ts2" and e: "end_check (ws1, ts2, ws1, ts2) = Inr s'"
        by (auto simp: Let_def simp del: end_check.simps split: if_splits option.splits)
      from e have nz: "deref ts2 \<noteq> 0" by (auto split: if_splits)
      from retry_length [OF r nz] skip_questions_length [OF sq]
      have "length ts2 < length ts" by simp
      moreover from end_check_Inr [OF e] obtain w' t' where
        "s' = (w', t', ws1, ts2)" "length t' < length ts2" by blast
      ultimately show ?thesis using s by (auto simp: resume_order_def)
    next
      case nomis: False
      with assms s False have e: "end_check (w, t, ws, ts) = Inr s'"
        by (auto simp del: end_check.simps split: if_splits)
      from end_check_Inr [OF e] obtain w' t' where
        "s' = (w', t', ws, ts)" "length t' < length t" by blast
      then show ?thesis using s by (auto simp: resume_order_def)
    qed
  qed
qed

text \<open>
  The direction of the moves in the second loop.  Once the active subject position is at or
  after the saved one, a pass that goes on leaves the saved subject position where it was or
  moves it forward, and leaves the active one strictly after it.  The active pattern position
  stays at or after the saved pattern position, which itself only moves forward: the pattern
  is never examined again in front of the position saved at the last \<open>*\<close>.
\<close>

lemma end_check_pattern:
  "end_check (w, t, ws, ts) = Inr (w', t', ws', ts') \<Longrightarrow>
   w' = snd (CodePointAdvance w) \<and> ws' = ws"
  by (auto split: if_splits)

lemma skip_questions_bytes:
  "skip_questions pWildSequence pTameSequence =
     (drop (length (takeWhile (\<lambda>b. b = QMARK) pWildSequence)) pWildSequence,
      drop (length (takeWhile (\<lambda>b. b = QMARK) pWildSequence)) pTameSequence)"
proof (induction pWildSequence pTameSequence rule: skip_questions.induct)
  case (1 pWildSequence pTameSequence)
  show ?case
  proof (cases "deref pWildSequence = QMARK")
    case True
    then obtain ws where ws: "pWildSequence = QMARK # ws"
      by (cases pWildSequence) (auto simp: QMARK_def)
    with "1.IH" [OF True] show ?thesis
      by (subst skip_questions.simps) (simp add: drop_Suc)
  next
    case False
    then have "takeWhile (\<lambda>b. b = QMARK) pWildSequence = []"
      by (cases pWildSequence) auto
    with False show ?thesis by (subst skip_questions.simps) simp
  qed
qed

lemma saved_subject_moves_forward:
  assumes body: "resume_body (w, t, ws, ts) = Inr (w', t', ws', ts')"
    and inv: "length t \<le> length ts"
  shows "length ts' \<le> length ts \<and> length t' < length ts'"
proof (cases "deref w = STAR")
  case True
  define w1 where "w1 = next_non_star w"
  from body True obtain t1 where
    t1: "(if deref w1 \<noteq> QMARK then find_next w1 t else Some t) = Some t1"
    and e: "end_check (w1, t1, w1, t1) = Inr (w', t', ws', ts')"
    unfolding w1_def
    by (auto simp: Let_def simp del: end_check.simps split: if_splits option.splits)
  from t1 have "length t1 \<le> length t"
    by (auto split: if_splits dest: find_next_length)
  with end_check_Inr [OF e] inv show ?thesis by auto
next
  case False
  show ?thesis
  proof (cases "\<not> CodePointCompare w t \<and> deref w \<noteq> QMARK")
    case True
    obtain ws1 ts1 where sq: "skip_questions ws ts = (ws1, ts1)"
      by (cases "skip_questions ws ts")
    with body False True obtain ts2 where
      r: "retry ws1 ts1 = Some ts2" and e: "end_check (ws1, ts2, ws1, ts2) = Inr (w', t', ws', ts')"
      by (auto simp: Let_def simp del: end_check.simps split: if_splits option.splits)
    from e have nz: "deref ts2 \<noteq> 0" by (auto split: if_splits)
    from retry_length [OF r nz] skip_questions_length [OF sq]
    have "length ts2 < length ts" by simp
    with end_check_Inr [OF e] show ?thesis by auto
  next
    case nomis: False
    with body False have e: "end_check (w, t, ws, ts) = Inr (w', t', ws', ts')"
      by (auto simp del: end_check.simps split: if_splits)
    with end_check_Inr [OF e] inv show ?thesis by auto
  qed
qed

lemma next_non_star_drop: "\<exists>k. next_non_star w = drop k w"
proof (induction w rule: next_non_star.induct)
  case (1 pWild)
  show ?case
  proof (cases "deref (tl pWild) = STAR")
    case True
    from "1.IH" [OF refl True] obtain k where "next_non_star (tl pWild) = drop k (tl pWild)"
      by blast
    then have "next_non_star pWild = drop (Suc k) pWild"
      unfolding next_non_star.simps [of pWild] using True by (simp add: Let_def drop_Suc)
    then show ?thesis by blast
  next
    case False
    then have "next_non_star pWild = drop 1 pWild"
      unfolding next_non_star.simps [of pWild] by (simp add: Let_def drop_Suc)
    then show ?thesis by blast
  qed
qed

lemma pattern_stays_behind_saved:
  assumes body: "resume_body (w, t, ws, ts) = Inr (w', t', ws', ts')"
    and inv: "\<exists>k. w = drop k ws"
  shows "(\<exists>k. ws' = drop k ws) \<and> (\<exists>k. w' = drop k ws')"
proof -
  have adv: "\<exists>k. snd (CodePointAdvance x) = drop k x" for x
    by (auto simp: CodePointAdvance_def Let_def)
  show ?thesis
  proof (cases "deref w = STAR")
    case True
    define w1 where "w1 = next_non_star w"
    from body True obtain t1 where "end_check (w1, t1, w1, t1) = Inr (w', t', ws', ts')"
      unfolding w1_def
      by (auto simp: Let_def simp del: end_check.simps split: if_splits option.splits)
    from end_check_pattern [OF this] have w': "w' = snd (CodePointAdvance w1)" and ws': "ws' = w1"
      by simp_all
    from next_non_star_drop [of w] inv obtain j k where "w1 = drop j (drop k ws)"
      unfolding w1_def by auto
    then have "w1 = drop (j + k) ws" by simp
    with w' ws' adv [of w1] show ?thesis by blast
  next
    case False
    show ?thesis
    proof (cases "\<not> CodePointCompare w t \<and> deref w \<noteq> QMARK")
      case True
      obtain ws1 ts1 where sq: "skip_questions ws ts = (ws1, ts1)"
        by (cases "skip_questions ws ts")
      with body False True obtain ts2 where
        "end_check (ws1, ts2, ws1, ts2) = Inr (w', t', ws', ts')"
        by (auto simp: Let_def simp del: end_check.simps split: if_splits option.splits)
      from end_check_pattern [OF this] have "w' = snd (CodePointAdvance ws1)" "ws' = ws1"
        by simp_all
      moreover from sq skip_questions_bytes [of ws ts] have "\<exists>k. ws1 = drop k ws" by auto
      ultimately show ?thesis using adv [of ws1] by blast
    next
      case nomis: False
      with body False have "end_check (w, t, ws, ts) = Inr (w', t', ws', ts')"
        by (auto simp del: end_check.simps split: if_splits)
      from end_check_pattern [OF this] have w': "w' = snd (CodePointAdvance w)" and ws': "ws' = ws"
        by simp_all
      from inv obtain k where "w = drop k ws" by blast
      moreover from adv [of w] obtain j where "snd (CodePointAdvance w) = drop j w" by blast
      ultimately have "w' = drop (j + k) ws" using w' by simp
      with ws' show ?thesis by (metis drop0)
    qed
  qed
qed

lemma resume_loop_returns: "\<exists>verdict. resume_loop s = Some verdict"
proof (induction s rule: wf_induct_rule [OF wf_resume_order])
  case (1 s)
  show ?case
  proof (cases "resume_body s")
    case (Inl verdict)
    then show ?thesis by (simp add: resume_loop.simps [of s])
  next
    case (Inr s')
    then have "(s', s) \<in> resume_order" by (rule resume_body_decreases)
    then obtain verdict where "resume_loop s' = Some verdict" using "1.IH" by blast
    with Inr show ?thesis by (simp add: resume_loop.simps [of s])
  qed
qed

lemma scan_loop_returns: "\<exists>verdict. scan_loop pWild pTame = Some verdict"
proof (induction pTame arbitrary: pWild rule: length_induct)
  case (1 pTame)
  show ?case
  proof (cases "deref pTame = 0")
    case True
    then show ?thesis by (subst scan_loop.simps) auto
  next
    case nz: False
    show ?thesis
    proof (cases "deref pWild = STAR")
      case True
      define w where "w = skip_stars pWild"
      define r where "r = (if deref w \<noteq> QMARK then find_next w pTame else Some pTame)"
      have eq: "scan_loop pWild pTame =
        (if deref w = 0 then Some True
         else case r of None \<Rightarrow> Some False | Some t \<Rightarrow> resume_loop (w, t, w, t))"
        using nz True unfolding w_def r_def by (subst scan_loop.simps) (simp add: Let_def)
      show ?thesis
      proof (cases r)
        case None
        with eq show ?thesis by auto
      next
        case (Some t)
        with eq resume_loop_returns [of "(w, t, w, t)"] show ?thesis by auto
      qed
    next
      case False
      from nz have "length (snd (CodePointAdvance pTame)) < length pTame"
        by (rule length_advance_less)
      with "1.IH" obtain verdict where
        "scan_loop (snd (CodePointAdvance pWild)) (snd (CodePointAdvance pTame)) = Some verdict"
        by blast
      with nz False show ?thesis by (subst scan_loop.simps) auto
    qed
  qed
qed


text \<open>The same facts for the bounded matcher.\<close>

lemma len_find_next_length:
  "len_find_next pWild pTame iTame = Some (t, i) \<Longrightarrow> length t \<le> length pTame"
proof (induction pWild pTame iTame rule: len_find_next.induct)
  case (1 pWild pTame iTame)
  show ?case
  proof (cases "CodePointCompare pWild pTame")
    case True
    with "1.prems" show ?thesis by (simp add: len_find_next.simps [of pWild pTame])
  next
    case False
    obtain more pTame' where adv: "CodePointAdvance pTame = (more, pTame')"
      by (cases "CodePointAdvance pTame")
    with False "1.prems" have more: more
      and rec: "len_find_next pWild pTame' (iTame + 1) = Some (t, i)"
      by (auto simp: len_find_next.simps [of pWild pTame] split: if_splits)
    from "1.IH" [OF False adv [symmetric]] more rec have "length t \<le> length pTame'" by simp
    moreover have "length pTame' < length pTame"
      using advance_shrinks [of pTame' pTame] adv more by simp
    ultimately show ?thesis by simp
  qed
qed

lemma len_skip_questions_length:
  "len_skip_questions pWildSequence pTameSequence iWildSequence iTameSequence =
     (ws, ts, iws, its) \<Longrightarrow> length ts \<le> length pTameSequence"
proof (induction pWildSequence pTameSequence iWildSequence iTameSequence
       rule: len_skip_questions.induct)
  case (1 pWildSequence pTameSequence iWildSequence iTameSequence)
  show ?case
  proof (cases "deref pWildSequence = QMARK")
    case True
    with "1.prems" have
      "len_skip_questions (tl pWildSequence) (tl pTameSequence)
         (iWildSequence + 1) (iTameSequence + 1) = (ws, ts, iws, its)"
      by (simp add: len_skip_questions.simps [of pWildSequence pTameSequence])
    from "1.IH" [OF True this] show ?thesis by simp
  next
    case False
    with "1.prems" show ?thesis
      by (simp add: len_skip_questions.simps [of pWildSequence pTameSequence])
  qed
qed

lemma len_retry_length:
  "len_retry lenTame pWild pTameSequence iTameSequence = Some (ts, its) \<Longrightarrow>
   deref ts \<noteq> 0 \<Longrightarrow> length ts < length pTameSequence"
proof (induction lenTame pWild pTameSequence iTameSequence rule: len_retry.induct)
  case (1 lenTame pWild pTameSequence iTameSequence)
  obtain same ts' where ac: "CodePointAdvanceAndCompare pWild pTameSequence = (same, ts')"
    by (cases "CodePointAdvanceAndCompare pWild pTameSequence")
  show ?case
  proof (cases same)
    case True
    with ac "1.prems" have "ts = ts'"
      by (simp add: len_retry.simps [of lenTame pWild pTameSequence])
    with advance_compare_shrinks [OF ac [symmetric]] "1.prems" show ?thesis by simp
  next
    case False
    with ac "1.prems" have stop: "\<not> (lenTame \<le> iTameSequence + 1 \<or> deref ts' = 0)"
      and rec: "len_retry lenTame pWild ts' (iTameSequence + 1) = Some (ts, its)"
      by (auto simp: len_retry.simps [of lenTame pWild pTameSequence] split: if_splits)
    from "1.IH" [OF ac [symmetric] False stop rec "1.prems"(2)]
    have "length ts < length ts'" .
    moreover have "length ts' < length pTameSequence"
      using advance_compare_shrinks [OF ac [symmetric]] stop by simp
    ultimately show ?thesis by simp
  qed
qed

lemma wf_len_resume_order: "wf len_resume_order"
  by (simp add: len_resume_order_def wf_lex_prod)

lemma len_end_check_Inr:
  "len_end_check lenWild lenTame (w, t, iw, it, ws, ts, iws, its) = Inr s' \<Longrightarrow>
   \<exists>w' t' iw' it'. s' = (w', t', iw', it', ws, ts, iws, its) \<and> length t' < length t"
  using length_advance_less [of t] by (auto split: if_splits)

lemma len_resume_body_decreases:
  assumes "len_resume_body lenWild lenTame s = Inr s'"
  shows "(s', s) \<in> len_resume_order"
proof -
  obtain w t iw it ws ts iws its where s: "s = (w, t, iw, it, ws, ts, iws, its)"
    by (cases s) auto
  show ?thesis
  proof (cases "deref w = STAR")
    case True
    with assms s obtain w1 iw1 where
      nn: "len_next_non_star lenWild w (iw + 1) = Some (w1, iw1)"
      by (auto simp del: len_end_check.simps split: option.splits)
    define r where
      "r = (if deref w1 \<noteq> QMARK then len_find_next w1 t it else Some (t, it))"
    from assms s True nn have
      "(case r of None \<Rightarrow> Inl False
        | Some (t1, it1) \<Rightarrow>
            len_end_check lenWild lenTame (w1, t1, iw1, it1, w1, t1, iw1, it1)) = Inr s'"
      unfolding r_def by (auto simp del: len_end_check.simps split: if_splits)
    then obtain t1 it1 where t1: "r = Some (t1, it1)"
      and e: "len_end_check lenWild lenTame (w1, t1, iw1, it1, w1, t1, iw1, it1) = Inr s'"
      by (cases r) auto
    from t1 have "length t1 \<le> length t"
      unfolding r_def by (auto split: if_splits dest: len_find_next_length)
    moreover from len_end_check_Inr [OF e] obtain w' t' iw' it' where
      "s' = (w', t', iw', it', w1, t1, iw1, it1)" "length t' < length t1" by blast
    ultimately show ?thesis using s by (auto simp: len_resume_order_def)
  next
    case False
    show ?thesis
    proof (cases "\<not> CodePointCompare w t \<and> deref w \<noteq> QMARK")
      case True
      obtain ws1 ts1 iws1 its1 where
        sq: "len_skip_questions ws ts iws its = (ws1, ts1, iws1, its1)"
        by (cases "len_skip_questions ws ts iws its") auto
      with assms s False True obtain ts2 its2 where
        r: "len_retry lenTame ws1 ts1 its1 = Some (ts2, its2)"
        and e: "len_end_check lenWild lenTame (ws1, ts2, iws1, its2, ws1, ts2, iws1, its2) = Inr s'"
        by (auto simp: Let_def simp del: len_end_check.simps split: if_splits option.splits)
      from e have nz: "deref ts2 \<noteq> 0" by (auto split: if_splits)
      from len_retry_length [OF r nz] len_skip_questions_length [OF sq]
      have "length ts2 < length ts" by simp
      moreover from len_end_check_Inr [OF e] obtain w' t' iw' it' where
        "s' = (w', t', iw', it', ws1, ts2, iws1, its2)" "length t' < length ts2" by blast
      ultimately show ?thesis using s by (auto simp: len_resume_order_def)
    next
      case nomis: False
      with assms s False have
        e: "len_end_check lenWild lenTame (w, t, iw, it, ws, ts, iws, its) = Inr s'"
        by (auto simp del: len_end_check.simps split: if_splits)
      from len_end_check_Inr [OF e] obtain w' t' iw' it' where
        "s' = (w', t', iw', it', ws, ts, iws, its)" "length t' < length t" by blast
      then show ?thesis using s by (auto simp: len_resume_order_def)
    qed
  qed
qed

lemma len_resume_loop_returns: "\<exists>verdict. len_resume_loop lenWild lenTame s = Some verdict"
proof (induction s rule: wf_induct_rule [OF wf_len_resume_order])
  case (1 s)
  show ?case
  proof (cases "len_resume_body lenWild lenTame s")
    case (Inl verdict)
    then show ?thesis by (simp add: len_resume_loop.simps [of lenWild lenTame s])
  next
    case (Inr s')
    then have "(s', s) \<in> len_resume_order" by (rule len_resume_body_decreases)
    then obtain verdict where "len_resume_loop lenWild lenTame s' = Some verdict"
      using "1.IH" by blast
    with Inr show ?thesis by (simp add: len_resume_loop.simps [of lenWild lenTame s])
  qed
qed

lemma len_scan_loop_returns:
  "\<exists>verdict. len_scan_loop lenWild lenTame pWild pTame iWild = Some verdict"
proof (induction pTame arbitrary: pWild iWild rule: length_induct)
  case (1 pTame)
  show ?case
  proof (cases "lenTame \<le> iWild \<or> deref pTame = 0")
    case True
    then show ?thesis by (subst len_scan_loop.simps) auto
  next
    case nz: False
    show ?thesis
    proof (cases "lenWild \<le> iWild")
      case True
      with nz show ?thesis by (subst len_scan_loop.simps) auto
    next
      case lim: False
      show ?thesis
      proof (cases "deref pWild = STAR")
        case True
        obtain w i where sk: "len_skip_stars lenWild pWild iWild = (w, i)"
          by (cases "len_skip_stars lenWild pWild iWild")
        define r where
          "r = (if deref w \<noteq> QMARK then len_find_next w pTame iWild else Some (pTame, iWild))"
        have eq: "len_scan_loop lenWild lenTame pWild pTame iWild =
          (if deref w = 0 then Some True
           else case r of None \<Rightarrow> Some False
                | Some (t, it) \<Rightarrow> len_resume_loop lenWild lenTame (w, t, i, it, w, t, i, it))"
          using nz lim True sk unfolding r_def
          by (subst len_scan_loop.simps) (simp add: Let_def)
        show ?thesis
        proof (cases r)
          case None
          with eq show ?thesis by auto
        next
          case (Some a)
          obtain t it where "a = (t, it)" by (cases a)
          with Some eq len_resume_loop_returns [of lenWild lenTame "(w, t, i, it, w, t, i, it)"]
          show ?thesis by auto
        qed
      next
        case False
        from nz have "length (snd (CodePointAdvance pTame)) < length pTame"
          by (auto intro: length_advance_less)
        with "1.IH" obtain verdict where
          "len_scan_loop lenWild lenTame (snd (CodePointAdvance pWild))
             (snd (CodePointAdvance pTame)) (iWild + 1) = Some verdict"
          by blast
        with nz lim False show ?thesis by (subst len_scan_loop.simps) auto
      qed
    qed
  qed
qed

text \<open>
  C7: both matchers return a verdict on every pair of buffers (and for every pair of limits),
  so in particular on every well-formed, terminator-delimited pattern and subject.  Each pass
  of the second loop that does not return descends in a well-founded order on the subject
  positions: the fall back moves the saved subject position strictly forward, and every
  other pass moves the active subject position strictly forward.
\<close>

theorem matchers_return:
  "(\<exists>verdict. FastWildCompareUtf8 pWild pTame = Some verdict) \<and>
   (\<exists>verdict. FastWildLenCompareUtf8 pWild pTame lenWild lenTame = Some verdict)"
  using scan_loop_returns [of pWild pTame] len_scan_loop_returns [of lenWild lenTame pWild pTame 0]
  by (simp add: FastWildCompareUtf8_def FastWildLenCompareUtf8_def)

section \<open>Verdicts of the unbounded matcher\<close>

text \<open>
  C8: the concrete scenarios of the specification, written there as (subject, pattern),
  evaluate to the listed verdicts.
\<close>

theorem concrete_scenarios:
  "FastWildCompareUtf8 (ascii ''Hi*'') (ascii ''Hi'') = Some True \<and>
   FastWildCompareUtf8 (ascii ''ab*d'') (ascii ''abc'') = Some False \<and>
   FastWildCompareUtf8 (ascii ''*issip*ss*'') (ascii ''mississipissippi'') = Some True \<and>
   FastWildCompareUtf8 (ascii ''*ccd'') (ascii ''abcccd'') = Some True \<and>
   FastWildCompareUtf8 (ascii ''*a?b'') (ascii ''caaab'') = Some True \<and>
   FastWildCompareUtf8 (ascii ''*aa?'') (ascii ''aaaaa'') = Some True \<and>
   FastWildCompareUtf8 (ascii ''?'') (ascii []) = Some False \<and>
   FastWildCompareUtf8 (ascii []) (ascii []) = Some True"
  by code_simp

lemma cstring_empty: "deref p = 0 \<Longrightarrow> cstring p = []"
  by (cases p) (auto simp: cstring_def)

lemma trailing_stars_iff:
  "deref p \<noteq> 0 \<Longrightarrow> trailing_stars p = (\<forall>b \<in> set (cstring p). b = STAR)"
proof (induction p)
  case Nil
  then show ?case by simp
next
  case (Cons a p)
  show ?case
  proof (cases "deref p = 0")
    case True
    with Cons.prems cstring_empty [OF True] show ?thesis
      by (subst trailing_stars.simps) (auto simp: cstring_def)
  next
    case False
    with Cons show ?thesis
      by (subst trailing_stars.simps) (auto simp: cstring_def STAR_def)
  qed
qed

lemma exhausted_subject:
  "deref pTame = 0 \<Longrightarrow>
   FastWildCompareUtf8 pWild pTame = Some (\<forall>b \<in> set (cstring pWild). b = STAR)"
proof (cases "deref pWild = 0")
  case True
  assume "deref pTame = 0"
  with True cstring_empty [OF True] show ?thesis
    by (simp add: FastWildCompareUtf8_def scan_loop.simps [of pWild pTame])
next
  case False
  assume "deref pTame = 0"
  with False trailing_stars_iff [OF False] show ?thesis
    by (simp add: FastWildCompareUtf8_def scan_loop.simps [of pWild pTame])
qed

lemma exhausted_pattern:
  "deref pWild = 0 \<Longrightarrow> deref pTame \<noteq> 0 \<Longrightarrow> FastWildCompareUtf8 pWild pTame = Some False"
  by (simp add: FastWildCompareUtf8_def scan_loop.simps [of pWild pTame] STAR_def QMARK_def
      CodePointCompare_def)

text \<open>
  C6: the verdicts on empty sequences.  A buffer holds the empty string when its first byte
  is the terminator.  Against an empty subject the verdict is true exactly when every byte
  of the pattern string is \<open>*\<close>; the empty pattern against a non-empty subject is false; the
  empty pattern against the empty subject is true.
\<close>

theorem empty_sequence_verdicts:
  "(deref eTame = 0 \<longrightarrow>
      FastWildCompareUtf8 pWild eTame = Some (\<forall>b \<in> set (cstring pWild). b = STAR)) \<and>
   (deref eWild = 0 \<and> deref pTame \<noteq> 0 \<longrightarrow> FastWildCompareUtf8 eWild pTame = Some False) \<and>
   (deref eWild = 0 \<and> deref eTame = 0 \<longrightarrow> FastWildCompareUtf8 eWild eTame = Some True)"
  using exhausted_subject [of eTame pWild] exhausted_subject [of eTame eWild]
    exhausted_pattern [of eWild pTame] cstring_empty [of eWild]
  by auto

theorem empty_sequence_verdicts_witness:
  "deref [0, 0x61] = 0 \<and> deref [] = 0 \<and> deref (ascii ''a'') \<noteq> 0 \<and>
   FastWildCompareUtf8 (ascii ''**'') [0, 0x61] = Some True \<and>
   FastWildCompareUtf8 [] (ascii ''a'') = Some False \<and>
   FastWildCompareUtf8 [] [0, 0x61] = Some True"
  using empty_sequence_verdicts [of "[0, 0x61]" "ascii ''**''" "[]" "ascii ''a''"]
  by (simp add: ascii_def cstring_def STAR_def)

section \<open>Patterns without wildcards\<close>

text \<open>
  On a well-formed unit the cursor behaves as the unit's width says: the advance steps over
  the whole unit, and the comparison succeeds exactly when the other buffer starts with the
  same bytes.
\<close>

lemma limits_ordered:
  "b > THREESOME_LIMIT \<Longrightarrow> b > TWOFER_LIMIT" "b > TWOFER_LIMIT \<Longrightarrow> b > SINGLETON_LIMIT"
  "b > SINGLETON_LIMIT \<Longrightarrow> b \<noteq> 0"
  by (auto simp: THREESOME_LIMIT_def TWOFER_LIMIT_def SINGLETON_LIMIT_def elim: order_less_trans [rotated])

lemma deref_at_1 [simp]: "deref_at 1 (a # p) = deref p"
  using deref_at_Suc_Cons [of 0 a p] by simp

lemma deref_at_2 [simp]: "deref_at 2 (a # b # p) = deref p"
  by (simp add: deref_at_def)

lemma deref_at_3 [simp]: "deref_at 3 (a # b # c # p) = deref p"
  by (simp add: deref_at_def)

lemma well_formed_unit_cases:
  assumes "well_formed_unit u"
  obtains
    (one) a where "u = [a]" "a \<noteq> 0" "\<not> a > SINGLETON_LIMIT"
      "\<not> a > TWOFER_LIMIT" "\<not> a > THREESOME_LIMIT"
  | (two) a b where "u = [a, b]" "a > SINGLETON_LIMIT" "\<not> a > TWOFER_LIMIT"
      "\<not> a > THREESOME_LIMIT" "a \<noteq> 0" "b \<noteq> 0"
  | (three) a b c where "u = [a, b, c]" "a > SINGLETON_LIMIT" "a > TWOFER_LIMIT"
      "\<not> a > THREESOME_LIMIT" "a \<noteq> 0" "b \<noteq> 0" "c \<noteq> 0"
  | (four) a b c d where "u = [a, b, c, d]" "a > SINGLETON_LIMIT" "a > TWOFER_LIMIT"
      "a > THREESOME_LIMIT" "a \<noteq> 0" "b \<noteq> 0" "c \<noteq> 0" "d \<noteq> 0"
proof -
  from assms obtain a v where u: "u = a # v" and nz: "a \<noteq> 0" "0 \<notin> set v"
    and len: "length v = of_bool (a > SINGLETON_LIMIT) + of_bool (a > TWOFER_LIMIT) + of_bool (a > THREESOME_LIMIT)"
    by (cases u) (auto simp: well_formed_unit_def unit_width_def)
  have ord: "a > THREESOME_LIMIT \<longrightarrow> a > TWOFER_LIMIT" "a > TWOFER_LIMIT \<longrightarrow> a > SINGLETON_LIMIT"
    using limits_ordered by blast+
  consider "\<not> a > SINGLETON_LIMIT" | "a > SINGLETON_LIMIT" "\<not> a > TWOFER_LIMIT"
    | "a > TWOFER_LIMIT" "\<not> a > THREESOME_LIMIT" | "a > THREESOME_LIMIT"
    by blast
  then show thesis
  proof cases
    case 1
    with ord len have "v = []" by auto
    with u nz 1 ord show thesis by (intro one [of a]) auto
  next
    case 2
    with ord len have "length v = 1" by auto
    then obtain b where "v = [b]" by (auto simp: length_Suc_conv)
    with u nz 2 ord show thesis by (intro two [of a b]) auto
  next
    case 3
    with ord len have "length v = 2" by auto
    then obtain b c where "v = [b, c]" by (auto simp: length_Suc_conv numeral_2_eq_2)
    with u nz 3 ord show thesis by (intro three [of a b c]) auto
  next
    case 4
    with ord len have "length v = 3" by auto
    then obtain b c d where "v = [b, c, d]" by (auto simp: length_Suc_conv numeral_3_eq_3)
    with u nz 4 ord show thesis by (intro four [of a b c d]) auto
  qed
qed

lemma advance_width_unit:
  assumes "well_formed_unit u"
  shows "advance_width (u @ rest) = length u"
  using assms
  by (cases u rule: well_formed_unit_cases)
     (auto simp: advance_width_def word_greater_zero_iff)

lemma advance_unit:
  "well_formed_unit u \<Longrightarrow> snd (CodePointAdvance (u @ rest)) = rest"
  by (simp add: CodePointAdvance_def Let_def advance_width_unit)

lemma compare_unit:
  assumes "well_formed_unit u"
  shows "CodePointCompare (u @ rest) t \<longleftrightarrow> (\<exists>t'. t = u @ t')"
  using assms
proof (cases u rule: well_formed_unit_cases)
  case (one a)
  then show ?thesis
    by (cases t) (auto simp: CodePointCompare_def)
next
  case (two a b)
  then show ?thesis
    by (cases t; cases "tl t") (auto simp: CodePointCompare_def)
next
  case (three a b c)
  then show ?thesis
    by (cases t; cases "tl t"; cases "tl (tl t)") (auto simp: CodePointCompare_def)
next
  case (four a b c d)
  then show ?thesis
    by (cases t; cases "tl t"; cases "tl (tl t)"; cases "tl (tl (tl t))")
       (auto simp: CodePointCompare_def)
qed


lemma deref_unit: "well_formed_unit u \<Longrightarrow> deref (u @ rest) = hd u \<and> hd u \<noteq> 0"
  by (cases u) (auto simp: well_formed_unit_def)

lemma unit_lead_STAR: "well_formed_unit u \<Longrightarrow> hd u = STAR \<Longrightarrow> u = [STAR]"
  by (cases u rule: well_formed_unit_cases)
     (auto simp: STAR_def SINGLETON_LIMIT_def)

lemma unit_lead_QMARK: "well_formed_unit u \<Longrightarrow> hd u = QMARK \<Longrightarrow> u = [QMARK]"
  by (cases u rule: well_formed_unit_cases)
     (auto simp: QMARK_def SINGLETON_LIMIT_def)

lemma cstring_append_unit:
  assumes "well_formed_unit u"
  shows "cstring (u @ t) = u @ cstring t"
proof -
  from assms have "\<And>x. x \<in> set u \<Longrightarrow> x \<noteq> 0"
    by (auto simp: well_formed_unit_def)
  then show ?thesis by (simp add: cstring_def takeWhile_append2)
qed

lemma cstring_nonempty: "deref p \<noteq> 0 \<Longrightarrow> cstring p \<noteq> []"
  by (cases p) (auto simp: cstring_def)

lemma cstring_split: "\<exists>rest. p = cstring p @ rest \<and> deref rest = 0"
proof -
  have "p = cstring p @ dropWhile (\<lambda>b. b \<noteq> 0) p"
    by (simp add: cstring_def)
  moreover have "deref (dropWhile (\<lambda>b. b \<noteq> 0) p) = 0"
    by (induction p) auto
  ultimately show ?thesis by blast
qed

lemma cstring_prefix: "cstring t = u @ x \<Longrightarrow> \<exists>t'. t = u @ t'"
  using cstring_split [of t] by (metis append.assoc)

lemma scan_loop_literal:
  assumes "\<forall>u \<in> set us. well_formed_unit u \<and> u \<noteq> [STAR] \<and> u \<noteq> [QMARK]"
    and "deref rest = 0"
  shows "scan_loop (concat us @ rest) t = Some (cstring t = concat us)"
  using assms(1)
proof (induction us arbitrary: t)
  case Nil
  show ?case
  proof (cases "deref t = 0")
    case True
    with assms(2) cstring_empty [OF True] show ?thesis
      by (subst scan_loop.simps) simp
  next
    case False
    with assms(2) cstring_nonempty [OF False] show ?thesis
      by (subst scan_loop.simps) (simp add: STAR_def QMARK_def CodePointCompare_def)
  qed
next
  case (Cons u us)
  then have wf: "well_formed_unit u" and lit: "u \<noteq> [STAR]" "u \<noteq> [QMARK]" by auto
  let ?w = "u @ concat us @ rest"
  from deref_unit [OF wf, of "concat us @ rest"] unit_lead_STAR [OF wf] unit_lead_QMARK [OF wf] lit
  have lead: "deref ?w \<noteq> 0" "deref ?w \<noteq> STAR" "deref ?w \<noteq> QMARK" by auto
  from wf have unonempty: "u \<noteq> []" by (simp add: well_formed_unit_def)
  show ?case
  proof (cases "deref t = 0")
    case True
    from lead have "\<not> trailing_stars ?w" by (subst trailing_stars.simps) simp
    with True lead cstring_empty [OF True] unonempty show ?thesis
      by (subst scan_loop.simps) simp
  next
    case nz: False
    show ?thesis
    proof (cases "CodePointCompare ?w t")
      case False
      then have "\<not> (\<exists>t'. t = u @ t')" by (simp add: compare_unit [OF wf])
      then have "cstring t \<noteq> u @ concat us" using cstring_prefix by blast
      with nz lead False show ?thesis by (subst scan_loop.simps) simp
    next
      case True
      then obtain t' where t: "t = u @ t'" using compare_unit [OF wf] by blast
      have "scan_loop ?w t = scan_loop (concat us @ rest) t'"
        using nz lead True advance_unit [OF wf]
        by (subst scan_loop.simps) (simp add: t)
      also have "\<dots> = Some (cstring t' = concat us)" using Cons by simp
      finally show ?thesis by (simp add: t cstring_append_unit [OF wf])
    qed
  qed
qed

text \<open>
  C5: when the pattern string is made of well-formed units none of which is the unit \<open>*\<close> or
  the unit \<open>?\<close>, the verdict is true exactly when the subject string equals the pattern
  string byte for byte.  The subject is any buffer.
\<close>

theorem literal_pattern_is_equality:
  assumes "cstring pWild = concat us"
    and "\<forall>u \<in> set us. well_formed_unit u \<and> u \<noteq> [STAR] \<and> u \<noteq> [QMARK]"
  shows "FastWildCompareUtf8 pWild pTame = Some (cstring pTame = cstring pWild)"
proof -
  from cstring_split [of pWild] assms(1) obtain rest where
    "pWild = concat us @ rest" "deref rest = 0" by auto
  with scan_loop_literal [OF assms(2), of rest pTame] assms(1) show ?thesis
    by (simp add: FastWildCompareUtf8_def)
qed

theorem literal_pattern_is_equality_witness:
  "FastWildCompareUtf8 [0x61, 0xC3, 0xA9, 0xE2, 0x82, 0xAC] [0x61, 0xC3, 0xA9, 0xE2, 0x82, 0xAC, 0, 0x62]
     = Some True \<and>
   FastWildCompareUtf8 [0x61, 0xC3, 0xA9, 0xE2, 0x82, 0xAC] [0x61, 0xC3, 0xA9, 0x62] = Some False"
proof -
  let ?us = "[[0x61], [0xC3, 0xA9], [0xE2, 0x82, 0xAC]] :: buffer list"
  have p: "cstring [0x61, 0xC3, 0xA9, 0xE2, 0x82, 0xAC] = concat ?us"
    by (simp add: cstring_def)
  have u: "\<forall>u \<in> set ?us. well_formed_unit u \<and> u \<noteq> [STAR] \<and> u \<noteq> [QMARK]"
    by code_simp
  show ?thesis
    using literal_pattern_is_equality [OF p u, of "[0x61, 0xC3, 0xA9, 0xE2, 0x82, 0xAC, 0, 0x62]"]
      literal_pattern_is_equality [OF p u, of "[0x61, 0xC3, 0xA9, 0x62]"]
    by (simp add: cstring_def)
qed

section \<open>The matcher against the wildcard syntax\<close>

text \<open>
  On a pattern of well-formed units in which no \<open>?\<close> follows a \<open>*\<close>, and a subject of
  well-formed units, the verdict of \<^verbatim>\<open>FastWildCompareUtf8\<close> is the one of \<open>spec_match\<close>.
\<close>

subsection \<open>Facts about the wildcard syntax\<close>

lemma spec_match_star:
  "spec_match ([STAR] # us) vs \<longleftrightarrow> (\<exists>k. spec_match us (drop k vs))"
proof (induction vs)
  case Nil
  then show ?case by simp
next
  case (Cons v vs)
  have "(\<exists>k. spec_match us (drop k (v # vs))) \<longleftrightarrow>
        spec_match us (v # vs) \<or> (\<exists>k. spec_match us (drop k vs))"
  proof
    assume "\<exists>k. spec_match us (drop k (v # vs))"
    then obtain k where k: "spec_match us (drop k (v # vs))" by blast
    show "spec_match us (v # vs) \<or> (\<exists>k. spec_match us (drop k vs))"
    proof (cases k)
      case 0
      with k show ?thesis by simp
    next
      case (Suc k')
      with k show ?thesis by auto
    qed
  next
    assume "spec_match us (v # vs) \<or> (\<exists>k. spec_match us (drop k vs))"
    then show "\<exists>k. spec_match us (drop k (v # vs))"
    proof
      assume "spec_match us (v # vs)"
      then have "spec_match us (drop 0 (v # vs))" by simp
      then show ?thesis by blast
    next
      assume "\<exists>k. spec_match us (drop k vs)"
      then obtain k where "spec_match us (drop (Suc k) (v # vs))" by auto
      then show ?thesis by blast
    qed
  qed
  with Cons show ?case by simp
qed

lemma spec_match_Nil_right: "spec_match us [] \<longleftrightarrow> (\<forall>u \<in> set us. u = [STAR])"
  by (induction us) auto

lemma spec_match_all_stars:
  "us \<noteq> [] \<Longrightarrow> \<forall>u \<in> set us. u = [STAR] \<Longrightarrow> spec_match us vs"
proof (induction us)
  case Nil
  then show ?case by simp
next
  case (Cons u us)
  have "\<exists>k. spec_match us (drop k vs)"
  proof (cases "us = []")
    case True
    then have "spec_match us (drop (length vs) vs)" by simp
    then show ?thesis by blast
  next
    case False
    with Cons have "spec_match us (drop 0 vs)" by simp
    then show ?thesis by blast
  qed
  with Cons.prems show ?case by (simp add: spec_match_star)
qed

lemma spec_match_collapse_stars:
  "(\<exists>k. spec_match us (drop k vs)) \<longleftrightarrow>
   (\<exists>k. spec_match (dropWhile (\<lambda>u. u = [STAR]) us) (drop k vs))"
proof (induction us)
  case Nil
  then show ?case by simp
next
  case (Cons u us)
  show ?case
  proof (cases "u = [STAR]")
    case False
    then show ?thesis by simp
  next
    case True
    have "(\<exists>k. spec_match (u # us) (drop k vs)) \<longleftrightarrow> (\<exists>k j. spec_match us (drop j (drop k vs)))"
      using True by (simp add: spec_match_star)
    also have "\<dots> \<longleftrightarrow> (\<exists>k. spec_match us (drop k vs))"
    proof
      assume "\<exists>k j. spec_match us (drop j (drop k vs))"
      then obtain k j where "spec_match us (drop (j + k) vs)" by auto
      then show "\<exists>k. spec_match us (drop k vs)" by blast
    next
      assume "\<exists>k. spec_match us (drop k vs)"
      then obtain k where "spec_match us (drop 0 (drop k vs))" by auto
      then show "\<exists>k j. spec_match us (drop j (drop k vs))" by blast
    qed
    finally show ?thesis using Cons True by simp
  qed
qed

lemma spec_match_literal:
  "u \<noteq> [STAR] \<Longrightarrow> u \<noteq> [QMARK] \<Longrightarrow>
   spec_match (u # us) vs \<longleftrightarrow> (\<exists>vs'. vs = u # vs' \<and> spec_match us vs')"
  by (cases vs) auto

lemma spec_match_literals:
  "\<forall>u \<in> set m. u \<noteq> [STAR] \<and> u \<noteq> [QMARK] \<Longrightarrow>
   spec_match (m @ w) vs \<longleftrightarrow> (\<exists>t. vs = m @ t \<and> spec_match w t)"
proof (induction m arbitrary: vs)
  case Nil
  then show ?case by simp
next
  case (Cons u m)
  then have "spec_match ((u # m) @ w) vs \<longleftrightarrow> (\<exists>vs'. vs = u # vs' \<and> spec_match (m @ w) vs')"
    by (simp add: spec_match_literal)
  also have "\<dots> \<longleftrightarrow> (\<exists>vs' t. vs = u # vs' \<and> vs' = m @ t \<and> spec_match w t)"
    using Cons by auto
  finally show ?case by auto
qed

lemma spec_match_first_occurrence:
  assumes "u \<noteq> [STAR]" "u \<noteq> [QMARK]"
  shows "(\<exists>k. spec_match (u # us) (drop k vs)) \<longleftrightarrow>
         (\<exists>k. spec_match (u # us) (drop k (dropWhile (\<lambda>v. v \<noteq> u) vs)))"
proof (induction vs)
  case Nil
  then show ?case by simp
next
  case (Cons v vs)
  show ?case
  proof (cases "v = u")
    case True
    then show ?thesis by simp
  next
    case False
    have "(\<exists>k. spec_match (u # us) (drop k (v # vs))) \<longleftrightarrow>
          (\<exists>k. spec_match (u # us) (drop k vs))"
    proof
      assume "\<exists>k. spec_match (u # us) (drop k (v # vs))"
      then obtain k where k: "spec_match (u # us) (drop k (v # vs))" by blast
      show "\<exists>k. spec_match (u # us) (drop k vs)"
      proof (cases k)
        case 0
        with k False assms show ?thesis by (simp add: spec_match_literal)
      next
        case (Suc k')
        with k show ?thesis by auto
      qed
    next
      assume "\<exists>k. spec_match (u # us) (drop k vs)"
      then obtain k where "spec_match (u # us) (drop (Suc k) (v # vs))" by auto
      then show "\<exists>k. spec_match (u # us) (drop k (v # vs))" by blast
    qed
    with Cons False show ?thesis by simp
  qed
qed

lemma spec_match_needs_units:
  "spec_match us vs \<Longrightarrow> length (filter (\<lambda>u. u \<noteq> [STAR]) us) \<le> length vs"
  by (induction us vs rule: spec_match.induct) (auto split: if_splits)

subsection \<open>The cursor and the inner loops on buffers of units\<close>

text \<open>
  A buffer that holds the units \<open>us\<close> followed by a terminator is \<open>concat us @ rest\<close> with
  \<open>deref rest = 0\<close>.  On such buffers every read, advance, comparison and inner loop of the
  matcher is a step on the list of units.
\<close>

lemma unit_append_eq:
  assumes "well_formed_unit u" "well_formed_unit v" "u @ a = v @ b"
  shows "u = v"
proof -
  from assms(1,2) obtain x u' y v' where u: "u = x # u'" and v: "v = y # v'"
    by (cases u; cases v) (auto simp: well_formed_unit_def)
  with assms(3) have "x = y" by simp
  with assms(1,2) u v have "length u = length v" by (simp add: well_formed_unit_def)
  with assms(3) show ?thesis by simp
qed

lemma deref_units:
  assumes "\<forall>u \<in> set us. well_formed_unit u" "deref rest = 0"
  shows "deref (concat us @ rest) = (case us of [] \<Rightarrow> 0 | u # _ \<Rightarrow> hd u)"
    and "deref (concat us @ rest) = 0 \<longleftrightarrow> us = []"
    and "deref (concat us @ rest) = STAR \<longleftrightarrow> us \<noteq> [] \<and> hd us = [STAR]"
    and "deref (concat us @ rest) = QMARK \<longleftrightarrow> us \<noteq> [] \<and> hd us = [QMARK]"
proof -
  show 1: "deref (concat us @ rest) = (case us of [] \<Rightarrow> 0 | u # _ \<Rightarrow> hd u)"
    using assms deref_unit by (cases us) auto
  show "deref (concat us @ rest) = 0 \<longleftrightarrow> us = []"
    using assms deref_unit by (cases us) auto
  show "deref (concat us @ rest) = STAR \<longleftrightarrow> us \<noteq> [] \<and> hd us = [STAR]"
  proof (cases us)
    case Nil
    with assms show ?thesis by (simp add: STAR_def)
  next
    case (Cons u us')
    with assms have "well_formed_unit u" by simp
    with 1 Cons unit_lead_STAR [of u] show ?thesis by (auto simp: STAR_def)
  qed
  show "deref (concat us @ rest) = QMARK \<longleftrightarrow> us \<noteq> [] \<and> hd us = [QMARK]"
  proof (cases us)
    case Nil
    with assms show ?thesis by (simp add: QMARK_def)
  next
    case (Cons u us')
    with assms have "well_formed_unit u" by simp
    with 1 Cons unit_lead_QMARK [of u] show ?thesis by (auto simp: QMARK_def)
  qed
qed

lemma advance_units:
  assumes "\<forall>u \<in> set us. well_formed_unit u" "deref rest = 0"
  shows "CodePointAdvance (concat us @ rest) = (tl us \<noteq> [], concat (tl us) @ rest)"
proof (cases us)
  case Nil
  with assms show ?thesis by (simp add: advance_at_zero)
next
  case (Cons u us')
  with assms have wf: "well_formed_unit u" "\<forall>u \<in> set us'. well_formed_unit u" by simp_all
  have "CodePointAdvance (u @ concat us' @ rest) =
          (deref (concat us' @ rest) \<noteq> 0, concat us' @ rest)"
    by (simp add: CodePointAdvance_def Let_def advance_width_unit [OF wf(1)])
  with Cons deref_units(2) [OF wf(2) assms(2)] show ?thesis by simp
qed

lemma compare_units:
  assumes "\<forall>u \<in> set us. well_formed_unit u" "deref rest = 0"
    and "\<forall>v \<in> set vs. well_formed_unit v" "deref rest' = 0"
  shows "CodePointCompare (concat us @ rest) (concat vs @ rest') \<longleftrightarrow>
           (us = [] \<and> vs = []) \<or> (us \<noteq> [] \<and> vs \<noteq> [] \<and> hd us = hd vs)"
proof (cases us)
  case Nil
  have "CodePointCompare rest (concat vs @ rest') \<longleftrightarrow> deref (concat vs @ rest') = 0"
    using assms(2)
    by (auto simp: CodePointCompare_def SINGLETON_LIMIT_def TWOFER_LIMIT_def THREESOME_LIMIT_def)
  with Nil deref_units(2) [OF assms(3,4)] show ?thesis by simp
next
  case (Cons u us')
  with assms have wf: "well_formed_unit u" by simp
  have "(\<exists>t'. concat vs @ rest' = u @ t') \<longleftrightarrow> vs \<noteq> [] \<and> hd vs = u"
  proof (cases vs)
    case Nil
    from deref_unit [OF wf] have "deref (u @ t') \<noteq> 0" for t' by simp
    with assms(4) have "rest' \<noteq> u @ t'" for t' by metis
    with Nil show ?thesis by simp
  next
    case (Cons v vs')
    with assms(3) have "well_formed_unit v" by simp
    with wf unit_append_eq [of v u "concat vs' @ rest'"] Cons show ?thesis by auto
  qed
  with Cons compare_unit [OF wf, of "concat us' @ rest" "concat vs @ rest'"] show ?thesis
    by auto
qed

lemma skip_stars_units:
  assumes "deref rest = 0"
  shows "\<forall>u \<in> set us. well_formed_unit u \<Longrightarrow>
         skip_stars (concat us @ rest) = concat (dropWhile (\<lambda>u. u = [STAR]) (tl us)) @ rest"
proof (induction us)
  case Nil
  with assms show ?case unfolding skip_stars.simps [of "concat [] @ rest"]
    by (simp add: advance_at_zero)
next
  case (Cons u us)
  then have wf: "\<forall>u \<in> set us. well_formed_unit u" by simp
  note adv = advance_units [OF Cons.prems assms]
  show ?case
  proof (cases "us \<noteq> [] \<and> hd us = [STAR]")
    case True
    then obtain us' where us: "us = [STAR] # us'" by (cases us) auto
    from True deref_units(3) [OF wf assms] have "deref (concat us @ rest) = STAR" by simp
    with adv True Cons.IH [OF wf] us show ?thesis
      unfolding skip_stars.simps [of "concat (u # us) @ rest"] by simp
  next
    case False
    with deref_units(3) [OF wf assms] have ns: "deref (concat us @ rest) \<noteq> STAR" by simp
    from False have "dropWhile (\<lambda>u. u = [STAR]) us = us" by (cases us) auto
    with adv ns show ?thesis
      unfolding skip_stars.simps [of "concat (u # us) @ rest"] by simp
  qed
qed

lemma next_non_star_units:
  assumes "deref rest = 0"
  shows "\<forall>u \<in> set us. well_formed_unit u \<Longrightarrow>
         next_non_star (concat ([STAR] # us) @ rest) =
           concat (dropWhile (\<lambda>u. u = [STAR]) us) @ rest"
proof (induction us)
  case Nil
  with assms show ?case unfolding next_non_star.simps [of "concat [[STAR]] @ rest"]
    by (simp add: Let_def STAR_def)
next
  case (Cons u us)
  then have wf: "\<forall>u \<in> set us. well_formed_unit u" by simp
  show ?case
  proof (cases "u = [STAR]")
    case True
    with Cons.IH [OF wf] show ?thesis
      unfolding next_non_star.simps [of "concat ([STAR] # u # us) @ rest"]
      by (simp add: Let_def)
  next
    case False
    with deref_units(3) [OF Cons.prems assms] have "deref (concat (u # us) @ rest) \<noteq> STAR"
      by simp
    with False show ?thesis
      unfolding next_non_star.simps [of "concat ([STAR] # u # us) @ rest"]
      by (simp add: Let_def)
  qed
qed

lemma trailing_stars_units:
  assumes "\<forall>u \<in> set us. well_formed_unit u" "deref rest = 0" "us \<noteq> []"
  shows "trailing_stars (concat us @ rest) \<longleftrightarrow> (\<forall>u \<in> set us. u = [STAR])"
proof -
  from assms deref_units(2) [OF assms(1,2)] have nz: "deref (concat us @ rest) \<noteq> 0" by simp
  have zf: "\<And>x. x \<in> set (concat us) \<Longrightarrow> x \<noteq> 0"
    using assms(1) by (auto simp: well_formed_unit_def)
  have "takeWhile (\<lambda>b. b \<noteq> 0) (concat us @ rest) =
          concat us @ takeWhile (\<lambda>b. b \<noteq> 0) rest"
    by (rule takeWhile_append2) (rule zf)
  then have "cstring (concat us @ rest) = concat us"
    using cstring_empty [OF assms(2)] by (simp add: cstring_def)
  with trailing_stars_iff [OF nz] have
    "trailing_stars (concat us @ rest) \<longleftrightarrow> (\<forall>b \<in> set (concat us). b = STAR)" by simp
  also have "\<dots> \<longleftrightarrow> (\<forall>u \<in> set us. u = [STAR])"
  proof
    assume all: "\<forall>b \<in> set (concat us). b = STAR"
    show "\<forall>u \<in> set us. u = [STAR]"
    proof
      fix u assume u: "u \<in> set us"
      with assms(1) have wf: "well_formed_unit u" by simp
      then have "u \<noteq> []" by (simp add: well_formed_unit_def)
      then have "hd u \<in> set u" by simp
      with u all have "hd u = STAR" by auto
      with wf show "u = [STAR]" by (rule unit_lead_STAR)
    qed
  next
    assume "\<forall>u \<in> set us. u = [STAR]"
    then show "\<forall>b \<in> set (concat us). b = STAR" by auto
  qed
  finally show ?thesis .
qed

lemma find_next_units:
  assumes "\<forall>u \<in> set us. well_formed_unit u" "deref rest = 0" "us \<noteq> []" "deref rest' = 0"
  shows "\<forall>v \<in> set vs. well_formed_unit v \<Longrightarrow>
         find_next (concat us @ rest) (concat vs @ rest') =
           (if hd us \<in> set vs
            then Some (concat (dropWhile (\<lambda>v. v \<noteq> hd us) vs) @ rest') else None)"
proof (induction vs)
  case Nil
  from compare_units [OF assms(1,2) Nil assms(4)] assms(3)
  have "\<not> CodePointCompare (concat us @ rest) (concat [] @ rest')" by simp
  with assms(4) show ?case
    unfolding find_next.simps [of "concat us @ rest" "concat [] @ rest'"]
    by (simp add: advance_at_zero)
next
  case (Cons v vs)
  then have wf: "\<forall>v \<in> set vs. well_formed_unit v" by simp
  note cmp = compare_units [OF assms(1,2) Cons.prems assms(4)]
  note adv = advance_units [OF Cons.prems assms(4)]
  show ?case
  proof (cases "hd us = v")
    case True
    with cmp assms(3) show ?thesis
      unfolding find_next.simps [of "concat us @ rest" "concat (v # vs) @ rest'"] by simp
  next
    case False
    with cmp have nc: "\<not> CodePointCompare (concat us @ rest) (concat (v # vs) @ rest')"
      by simp
    show ?thesis
    proof (cases "vs = []")
      case True
      with nc adv False show ?thesis
        unfolding find_next.simps [of "concat us @ rest" "concat (v # vs) @ rest'"] by simp
    next
      case nonempty: False
      with nc adv False Cons.IH [OF wf] show ?thesis
        unfolding find_next.simps [of "concat us @ rest" "concat (v # vs) @ rest'"] by auto
    qed
  qed
qed

lemma retry_units:
  assumes "\<forall>u \<in> set us. well_formed_unit u" "deref rest = 0" "us \<noteq> []" "deref rest' = 0"
  shows "\<forall>v \<in> set vs. well_formed_unit v \<Longrightarrow>
         retry (concat us @ rest) (concat vs @ rest') =
           (if hd us \<in> set (tl vs)
            then Some (concat (dropWhile (\<lambda>v. v \<noteq> hd us) (tl vs)) @ rest') else None)"
proof (induction vs)
  case Nil
  from compare_units [OF assms(1,2) Nil assms(4)] assms(3)
  have "\<not> CodePointCompare (concat us @ rest) (concat [] @ rest')" by simp
  with assms(4) show ?case
    unfolding retry.simps [of "concat us @ rest" "concat [] @ rest'"]
    by (simp add: CodePointAdvanceAndCompare_def Let_def advance_width_zero)
next
  case (Cons v vs)
  then have wf: "\<forall>v \<in> set vs. well_formed_unit v" by simp
  note cmp = compare_units [OF assms(1,2) wf assms(4)]
  from advance_units [OF Cons.prems assms(4)] have
    ac: "CodePointAdvanceAndCompare (concat us @ rest) (concat (v # vs) @ rest') =
           (CodePointCompare (concat us @ rest) (concat vs @ rest'), concat vs @ rest')"
    by (simp add: CodePointAdvanceAndCompare_def CodePointAdvance_def Let_def)
  show ?case
  proof (cases "vs \<noteq> [] \<and> hd vs = hd us")
    case True
    then obtain vs' where "vs = hd us # vs'" by (cases vs) auto
    with cmp assms(3) ac show ?thesis
      unfolding retry.simps [of "concat us @ rest" "concat (v # vs) @ rest'"] by simp
  next
    case False
    with cmp assms(3) have nc: "\<not> CodePointCompare (concat us @ rest) (concat vs @ rest')"
      by auto
    show ?thesis
    proof (cases "vs = []")
      case True
      with nc ac assms(4) show ?thesis
        unfolding retry.simps [of "concat us @ rest" "concat (v # vs) @ rest'"] by simp
    next
      case nonempty: False
      with deref_units(2) [OF wf assms(4)] have nz: "deref (concat vs @ rest') \<noteq> 0" by simp
      from nonempty False obtain v' vs' where vs: "vs = v' # vs'" "v' \<noteq> hd us"
        by (cases vs) auto
      with nc ac nz Cons.IH [OF wf] show ?thesis
        unfolding retry.simps [of "concat us @ rest" "concat (v # vs) @ rest'"] by simp
    qed
  qed
qed

lemma skip_questions_none:
  "deref pWildSequence \<noteq> QMARK \<Longrightarrow>
   skip_questions pWildSequence pTameSequence = (pWildSequence, pTameSequence)"
  unfolding skip_questions.simps [of pWildSequence pTameSequence] by simp

subsection \<open>One pass of the second loop on buffers of units\<close>

lemma end_check_units:
  assumes "\<forall>u \<in> set w. well_formed_unit u" "deref rest = 0"
    and "\<forall>v \<in> set t. well_formed_unit v" "deref rest' = 0"
  shows "end_check (concat w @ rest, concat t @ rest', x, y) =
           (if t = [] then Inl (w = [])
            else Inr (concat (tl w) @ rest, concat (tl t) @ rest', x, y))"
  using deref_units(2) [OF assms(1,2)] deref_units(2) [OF assms(3,4)]
    advance_units [OF assms(1,2)] advance_units [OF assms(3,4)]
  by simp

lemma star_pass_units:
  assumes wfw: "\<forall>u \<in> set w'. well_formed_unit u" and z: "deref rest = 0"
    and wft: "\<forall>v \<in> set t. well_formed_unit v" and z': "deref rest' = 0"
    and nq: "[QMARK] \<notin> set w'"
  defines "w1 \<equiv> dropWhile (\<lambda>u. u = [STAR]) w'"
  defines "t1 \<equiv> dropWhile (\<lambda>v. v \<noteq> hd w1) t"
  shows "resume_body (concat ([STAR] # w') @ rest, concat t @ rest', x, y) =
           (if w1 = [] then Inl True
            else if t = [] then Inl False
            else if hd w1 \<in> set t
                 then Inr (concat (tl w1) @ rest, concat (tl t1) @ rest',
                           concat w1 @ rest, concat t1 @ rest')
                 else Inl False)"
proof -
  have wfs: "\<forall>u \<in> set ([STAR] # w'). well_formed_unit u"
    using wfw by (auto simp: well_formed_unit_def unit_width_def STAR_def SINGLETON_LIMIT_def
        TWOFER_LIMIT_def THREESOME_LIMIT_def)
  have wf1: "\<forall>u \<in> set w1. well_formed_unit u"
    using wfw unfolding w1_def by (auto dest: set_dropWhileD)
  have wft1: "\<forall>v \<in> set t1. well_formed_unit v"
    using wft unfolding t1_def by (auto dest: set_dropWhileD)
  have star: "deref (concat ([STAR] # w') @ rest) = STAR" by simp
  have nn: "next_non_star (concat ([STAR] # w') @ rest) = concat w1 @ rest"
    unfolding w1_def by (rule next_non_star_units [OF z wfw])
  have body: "resume_body (concat ([STAR] # w') @ rest, concat t @ rest', x, y) =
    (if deref (next_non_star (concat ([STAR] # w') @ rest)) = 0 then Inl True
     else if deref (concat t @ rest') = 0 then Inl False
     else (case (if deref (next_non_star (concat ([STAR] # w') @ rest)) \<noteq> QMARK
                 then find_next (next_non_star (concat ([STAR] # w') @ rest)) (concat t @ rest')
                 else Some (concat t @ rest')) of
             None \<Rightarrow> Inl False
           | Some pTame \<Rightarrow>
               end_check (next_non_star (concat ([STAR] # w') @ rest), pTame,
                          next_non_star (concat ([STAR] # w') @ rest), pTame)))"
    using star by (simp add: Let_def del: end_check.simps concat.simps)
  note body = body [unfolded nn]
  show ?thesis
  proof (cases "w1 = []")
    case True
    with body deref_units(2) [OF wf1 z] show ?thesis by simp
  next
    case w1n: False
    show ?thesis
    proof (cases "t = []")
      case True
      with body w1n deref_units(2) [OF wf1 z] deref_units(2) [OF wft z'] show ?thesis by simp
    next
      case tn: False
      have "hd w1 \<in> set w1" using w1n by simp
      then have "hd w1 \<in> set w'" unfolding w1_def by (rule set_dropWhileD)
      with nq have "hd w1 \<noteq> [QMARK]" by auto
      with deref_units(4) [OF wf1 z] have notq: "deref (concat w1 @ rest) \<noteq> QMARK" by simp
      note fn = find_next_units [OF wf1 z w1n z' wft]
      show ?thesis
      proof (cases "hd w1 \<in> set t")
        case False
        with body w1n tn notq fn deref_units(2) [OF wf1 z] deref_units(2) [OF wft z']
        show ?thesis by simp
      next
        case True
        then have t1n: "t1 \<noteq> []" unfolding t1_def by (simp add: dropWhile_eq_Nil_conv)
        from True fn have "find_next (concat w1 @ rest) (concat t @ rest') =
          Some (concat t1 @ rest')" by (simp add: t1_def)
        with body w1n tn notq deref_units(2) [OF wf1 z] deref_units(2) [OF wft z']
        have "resume_body (concat ([STAR] # w') @ rest, concat t @ rest', x, y) =
          end_check (concat w1 @ rest, concat t1 @ rest', concat w1 @ rest, concat t1 @ rest')"
          by (simp del: end_check.simps)
        also have "\<dots> = Inr (concat (tl w1) @ rest, concat (tl t1) @ rest',
                           concat w1 @ rest, concat t1 @ rest')"
          using t1n by (simp add: end_check_units [OF wf1 z wft1 z'] del: end_check.simps)
        finally show ?thesis using w1n tn True by simp
      qed
    qed
  qed
qed

lemma in_set_tl: "x \<in> set (tl xs) \<Longrightarrow> x \<in> set xs"
  by (cases xs) auto

lemma fall_back_units:
  assumes wfw: "\<forall>u \<in> set w. well_formed_unit u" and z: "deref rest = 0"
    and wft: "\<forall>v \<in> set t. well_formed_unit v" and z': "deref rest' = 0"
    and wfws: "\<forall>u \<in> set ws. well_formed_unit u" and wfts: "\<forall>v \<in> set ts. well_formed_unit v"
    and wsn: "ws \<noteq> []" and nq: "hd ws \<noteq> [QMARK]"
    and nostar: "\<not> (w \<noteq> [] \<and> hd w = [STAR])" and noq: "\<not> (w \<noteq> [] \<and> hd w = [QMARK])"
    and mismatch: "\<not> ((w = [] \<and> t = []) \<or> (w \<noteq> [] \<and> t \<noteq> [] \<and> hd w = hd t))"
  defines "ts1 \<equiv> dropWhile (\<lambda>v. v \<noteq> hd ws) (tl ts)"
  shows "resume_body (concat w @ rest, concat t @ rest', concat ws @ rest, concat ts @ rest') =
           (if t = [] then Inl False
            else if hd ws \<in> set (tl ts)
                 then Inr (concat (tl ws) @ rest, concat (tl ts1) @ rest',
                           concat ws @ rest, concat ts1 @ rest')
                 else Inl False)"
proof -
  have wfts1: "\<forall>v \<in> set ts1. well_formed_unit v"
    using wfts unfolding ts1_def by (auto dest: set_dropWhileD in_set_tl)
  from nostar deref_units(3) [OF wfw z] have ns: "deref (concat w @ rest) \<noteq> STAR" by simp
  from noq deref_units(4) [OF wfw z] have nqw: "deref (concat w @ rest) \<noteq> QMARK" by simp
  from mismatch compare_units [OF wfw z wft z'] have
    nc: "\<not> CodePointCompare (concat w @ rest) (concat t @ rest')" by simp
  from nq wsn deref_units(4) [OF wfws z] have "deref (concat ws @ rest) \<noteq> QMARK" by simp
  then have sq: "skip_questions (concat ws @ rest) (concat ts @ rest') =
    (concat ws @ rest, concat ts @ rest')" by (rule skip_questions_none)
  have body: "resume_body (concat w @ rest, concat t @ rest', concat ws @ rest, concat ts @ rest') =
    (if deref (concat t @ rest') = 0 then Inl False
     else (case retry (concat ws @ rest) (concat ts @ rest') of
             None \<Rightarrow> Inl False
           | Some pTameSequence \<Rightarrow>
               end_check (concat ws @ rest, pTameSequence, concat ws @ rest, pTameSequence)))"
    using ns nqw nc sq by (simp add: Let_def del: end_check.simps)
  note rt = retry_units [OF wfws z wsn z' wfts]
  show ?thesis
  proof (cases "t = []")
    case True
    with body deref_units(2) [OF wft z'] show ?thesis by simp
  next
    case tn: False
    show ?thesis
    proof (cases "hd ws \<in> set (tl ts)")
      case False
      with body tn rt deref_units(2) [OF wft z'] show ?thesis by simp
    next
      case True
      then have ts1n: "ts1 \<noteq> []" unfolding ts1_def by (simp add: dropWhile_eq_Nil_conv)
      from True rt have "retry (concat ws @ rest) (concat ts @ rest') =
        Some (concat ts1 @ rest')" by (simp add: ts1_def)
      with body tn deref_units(2) [OF wft z'] have
        "resume_body (concat w @ rest, concat t @ rest', concat ws @ rest, concat ts @ rest') =
         end_check (concat ws @ rest, concat ts1 @ rest', concat ws @ rest, concat ts1 @ rest')"
        by (simp del: end_check.simps)
      also have "\<dots> = Inr (concat (tl ws) @ rest, concat (tl ts1) @ rest',
                         concat ws @ rest, concat ts1 @ rest')"
        using ts1n by (simp add: end_check_units [OF wfws z wfts1 z'] del: end_check.simps)
      finally show ?thesis using tn True by simp
    qed
  qed
qed

lemma match_pass_units:
  assumes wfw: "\<forall>u \<in> set w. well_formed_unit u" and z: "deref rest = 0"
    and wft: "\<forall>v \<in> set t. well_formed_unit v" and z': "deref rest' = 0"
    and nostar: "\<not> (w \<noteq> [] \<and> hd w = [STAR])"
    and match: "(w = [] \<and> t = []) \<or> (w \<noteq> [] \<and> t \<noteq> [] \<and> hd w = hd t)"
  shows "resume_body (concat w @ rest, concat t @ rest', x, y) =
           (if t = [] then Inl True
            else Inr (concat (tl w) @ rest, concat (tl t) @ rest', x, y))"
proof -
  from nostar deref_units(3) [OF wfw z] have ns: "deref (concat w @ rest) \<noteq> STAR" by simp
  from match compare_units [OF wfw z wft z'] have
    "CodePointCompare (concat w @ rest) (concat t @ rest')" by simp
  with ns have "resume_body (concat w @ rest, concat t @ rest', x, y) =
    end_check (concat w @ rest, concat t @ rest', x, y)" by (simp del: end_check.simps)
  with match show ?thesis by (auto simp: end_check_units [OF wfw z wft z'] simp del: end_check.simps)
qed

subsection \<open>The wildcard syntax after a star\<close>

text \<open>
  After a \<open>*\<close> the matcher looks for the rest of the pattern at some position of the rest of
  the subject.  With \<open>m\<close> the units matched since the fall back position, the question is
  whether \<open>m @ w\<close> matches \<open>m @ t\<close> after dropping some units.
\<close>

lemma ex_drop_tl:
  assumes "ts \<noteq> []"
  shows "(\<exists>k. Q (drop k ts)) \<longleftrightarrow> Q ts \<or> (\<exists>k. Q (drop k (tl ts)))"
proof
  assume "\<exists>k. Q (drop k ts)"
  then obtain k where k: "Q (drop k ts)" ..
  show "Q ts \<or> (\<exists>k. Q (drop k (tl ts)))"
  proof (cases k)
    case 0
    with k show ?thesis by simp
  next
    case (Suc j)
    with k have "Q (drop j (tl ts))" by (simp add: drop_Suc)
    then show ?thesis by blast
  qed
next
  assume "Q ts \<or> (\<exists>k. Q (drop k (tl ts)))"
  then show "\<exists>k. Q (drop k ts)"
  proof
    assume "Q ts"
    then have "Q (drop 0 ts)" by simp
    then show ?thesis ..
  next
    assume "\<exists>k. Q (drop k (tl ts))"
    then obtain k where "Q (drop k (tl ts))" ..
    then have "Q (drop (Suc k) ts)" by (simp add: drop_Suc)
    then show ?thesis ..
  qed
qed

lemma segment_after_star:
  assumes "\<forall>u \<in> set m. u \<noteq> [STAR] \<and> u \<noteq> [QMARK]"
  shows "(\<exists>k. spec_match (m @ [STAR] # w') (drop k (m @ t))) \<longleftrightarrow>
         (\<exists>k. spec_match w' (drop k t))"
proof
  assume "\<exists>k. spec_match (m @ [STAR] # w') (drop k (m @ t))"
  then obtain k where "spec_match (m @ [STAR] # w') (drop k (m @ t))" ..
  then obtain x where x: "drop k (m @ t) = m @ x" "spec_match ([STAR] # w') x"
    using spec_match_literals [OF assms] by blast
  have "x = drop (length m) (m @ x)" by simp
  also have "\<dots> = drop (length m) (drop k (m @ t))" using x(1) by simp
  also have "\<dots> = drop (length m + k) (m @ t)" by (simp only: drop_drop)
  also have "\<dots> = drop k t" by simp
  finally have "x = drop k t" .
  with x(2) obtain j where "spec_match w' (drop j (drop k t))"
    using spec_match_star by blast
  then have "spec_match w' (drop (j + k) t)" by simp
  then show "\<exists>k. spec_match w' (drop k t)" ..
next
  assume "\<exists>k. spec_match w' (drop k t)"
  then have "spec_match ([STAR] # w') t" by (simp add: spec_match_star)
  then have "spec_match (m @ [STAR] # w') (m @ t)"
    using spec_match_literals [OF assms] by blast
  then have "spec_match (m @ [STAR] # w') (drop 0 (m @ t))" by simp
  then show "\<exists>k. spec_match (m @ [STAR] # w') (drop k (m @ t))" ..
qed

lemma segment_restart:
  assumes "w1 \<noteq> []" "hd w1 \<noteq> [STAR]" "hd w1 \<noteq> [QMARK]"
  shows "(\<exists>k. spec_match w1 (drop k t)) \<longleftrightarrow>
         (\<exists>k. spec_match w1 (drop k (dropWhile (\<lambda>v. v \<noteq> hd w1) t)))"
proof -
  from assms(1) have "w1 = hd w1 # tl w1" by simp
  then show ?thesis
    using spec_match_first_occurrence [OF assms(2,3), of "tl w1" t] by simp
qed

lemma segment_fall_back:
  assumes "ws \<noteq> []" "hd ws \<noteq> [STAR]" "hd ws \<noteq> [QMARK]" "ts \<noteq> []" "\<not> spec_match ws ts"
  shows "(\<exists>k. spec_match ws (drop k ts)) \<longleftrightarrow>
         (\<exists>k. spec_match ws (drop k (dropWhile (\<lambda>v. v \<noteq> hd ws) (tl ts))))"
proof -
  have "(\<exists>k. spec_match ws (drop k ts)) \<longleftrightarrow> (\<exists>k. spec_match ws (drop k (tl ts)))"
    using ex_drop_tl [OF assms(4), of "spec_match ws"] assms(5) by simp
  also have "\<dots> \<longleftrightarrow> (\<exists>k. spec_match ws (drop k (dropWhile (\<lambda>v. v \<noteq> hd ws) (tl ts))))"
    by (rule segment_restart [OF assms(1-3)])
  finally show ?thesis .
qed

lemma segment_no_match_Nil:
  assumes "ws \<noteq> []" "hd ws \<noteq> [STAR]"
  shows "\<not> (\<exists>k. spec_match ws (drop k []))"
  using assms by (cases ws) auto

lemma segment_mismatch:
  assumes lit: "\<forall>u \<in> set m. u \<noteq> [STAR] \<and> u \<noteq> [QMARK]"
    and nostar: "\<not> (w \<noteq> [] \<and> hd w = [STAR])" and noq: "\<not> (w \<noteq> [] \<and> hd w = [QMARK])"
    and mismatch: "\<not> ((w = [] \<and> t = []) \<or> (w \<noteq> [] \<and> t \<noteq> [] \<and> hd w = hd t))"
  shows "\<not> spec_match (m @ w) (m @ t)"
proof -
  have "spec_match (m @ w) (m @ t) \<longleftrightarrow> spec_match w t"
    using spec_match_literals [OF lit, of w "m @ t"] by auto
  moreover have "\<not> spec_match w t"
  proof (cases w)
    case Nil
    with mismatch show ?thesis by simp
  next
    case (Cons u w')
    with nostar noq have "u \<noteq> [STAR]" "u \<noteq> [QMARK]" by auto
    with Cons mismatch show ?thesis by (auto simp: spec_match_literal)
  qed
  ultimately show ?thesis by simp
qed

lemma segment_too_short:
  assumes lit: "\<forall>u \<in> set m. u \<noteq> [STAR] \<and> u \<noteq> [QMARK]"
    and "w \<noteq> []" "hd w \<noteq> [STAR]"
  shows "\<not> (\<exists>k. spec_match (m @ w) (drop k (m @ [])))"
proof
  assume "\<exists>k. spec_match (m @ w) (drop k (m @ []))"
  then obtain k where "spec_match (m @ w) (drop k (m @ []))" ..
  then have "length (filter (\<lambda>u. u \<noteq> [STAR]) (m @ w)) \<le> length (drop k (m @ []))"
    by (rule spec_match_needs_units)
  moreover have "filter (\<lambda>u. u \<noteq> [STAR]) m = m" using lit by (simp add: filter_id_conv)
  ultimately have "length m + length (filter (\<lambda>u. u \<noteq> [STAR]) w) \<le> length m - k"
    by simp
  moreover have "filter (\<lambda>u. u \<noteq> [STAR]) w \<noteq> []"
    using assms(2,3) by (cases w) auto
  then have "0 < length (filter (\<lambda>u. u \<noteq> [STAR]) w)"
    by (rule iffD2 [OF length_greater_0_conv])
  ultimately show False by linarith
qed

subsection \<open>The second loop\<close>

text \<open>
  The cursors of the second loop are the positions \<open>w\<close> and \<open>t\<close> and the fall back positions
  \<open>m @ w\<close> and \<open>m @ t\<close>, where \<open>m\<close> holds the literal units matched since the fall back.
\<close>

lemma resume_loop_units:
  assumes z: "deref rest = 0" and z': "deref rest' = 0"
  shows "s = (concat w @ rest, concat t @ rest', concat (m @ w) @ rest, concat (m @ t) @ rest') \<Longrightarrow>
         \<forall>u \<in> set (m @ w). well_formed_unit u \<Longrightarrow>
         \<forall>v \<in> set (m @ t). well_formed_unit v \<Longrightarrow>
         [QMARK] \<notin> set (m @ w) \<Longrightarrow> [STAR] \<notin> set m \<Longrightarrow>
         m @ w \<noteq> [] \<Longrightarrow> hd (m @ w) \<noteq> [STAR] \<Longrightarrow>
         resume_loop s = Some (\<exists>k. spec_match (m @ w) (drop k (m @ t)))"
proof (induction s arbitrary: m w t rule: wf_induct_rule [OF wf_resume_order])
  case (1 s m w t)
  define ws where "ws = m @ w"
  define ts where "ts = m @ t"
  have s: "s = (concat w @ rest, concat t @ rest', concat ws @ rest, concat ts @ rest')"
    unfolding ws_def ts_def by (rule "1.prems"(1))
  have wfws: "\<forall>u \<in> set ws. well_formed_unit u" unfolding ws_def by (rule "1.prems"(2))
  have wfts: "\<forall>v \<in> set ts. well_formed_unit v" unfolding ts_def by (rule "1.prems"(3))
  have nq: "[QMARK] \<notin> set ws" unfolding ws_def by (rule "1.prems"(4))
  have ns: "[STAR] \<notin> set m" by (rule "1.prems"(5))
  have ne: "ws \<noteq> []" unfolding ws_def by (rule "1.prems"(6))
  have hs: "hd ws \<noteq> [STAR]" unfolding ws_def by (rule "1.prems"(7))
  have hq: "hd ws \<noteq> [QMARK]" using ne nq by (metis hd_in_set)
  have lit: "\<forall>u \<in> set m. u \<noteq> [STAR] \<and> u \<noteq> [QMARK]"
    using nq ns unfolding ws_def by auto
  have wfw: "\<forall>u \<in> set w. well_formed_unit u" using wfws unfolding ws_def by simp
  have wft: "\<forall>v \<in> set t. well_formed_unit v" using wfts unfolding ts_def by simp
  have nqw: "[QMARK] \<notin> set w" using nq unfolding ws_def by simp
  have stop: "resume_loop s = Some b" if "resume_body s = Inl b" for b
    using that by (simp add: resume_loop.simps [of s])
  have continue: "resume_loop s = Some (\<exists>k. spec_match (m' @ w') (drop k (m' @ t')))"
    if b: "resume_body s = Inr (concat w' @ rest, concat t' @ rest',
                                concat (m' @ w') @ rest, concat (m' @ t') @ rest')"
      and p: "\<forall>u \<in> set (m' @ w'). well_formed_unit u" "\<forall>v \<in> set (m' @ t'). well_formed_unit v"
        "[QMARK] \<notin> set (m' @ w')" "[STAR] \<notin> set m'" "m' @ w' \<noteq> []" "hd (m' @ w') \<noteq> [STAR]"
    for m' w' t'
  proof -
    from b have "((concat w' @ rest, concat t' @ rest',
                   concat (m' @ w') @ rest, concat (m' @ t') @ rest'), s) \<in> resume_order"
      by (rule resume_body_decreases)
    then have "resume_loop (concat w' @ rest, concat t' @ rest',
                            concat (m' @ w') @ rest, concat (m' @ t') @ rest') =
               Some (\<exists>k. spec_match (m' @ w') (drop k (m' @ t')))"
      by (rule "1.IH" [OF _ refl p])
    with b show ?thesis by (simp add: resume_loop.simps [of s])
  qed
  have result: "resume_loop s = Some (\<exists>k. spec_match ws (drop k ts))"
  proof (cases "w \<noteq> [] \<and> hd w = [STAR]")
    case True
    then obtain w' where w: "w = [STAR] # w'" by (cases w) auto
    define w1 where "w1 = dropWhile (\<lambda>u. u = [STAR]) w'"
    define t1 where "t1 = dropWhile (\<lambda>v. v \<noteq> hd w1) t"
    have wfw': "\<forall>u \<in> set w'. well_formed_unit u" using wfw w by simp
    have nqw': "[QMARK] \<notin> set w'" using nqw w by simp
    have wfw1: "\<forall>u \<in> set w1. well_formed_unit u"
      using wfw' unfolding w1_def by (auto dest: set_dropWhileD)
    have wft1: "\<forall>v \<in> set t1. well_formed_unit v"
      using wft unfolding t1_def by (auto dest: set_dropWhileD)
    have nqw1: "[QMARK] \<notin> set w1" using nqw' unfolding w1_def by (auto dest: set_dropWhileD)
    have body: "resume_body s =
           (if w1 = [] then Inl True
            else if t = [] then Inl False
            else if hd w1 \<in> set t
                 then Inr (concat (tl w1) @ rest, concat (tl t1) @ rest',
                           concat w1 @ rest, concat t1 @ rest')
                 else Inl False)"
      unfolding s w t1_def w1_def by (rule star_pass_units [OF wfw' z wft z' nqw'])
    have "(\<exists>k. spec_match ws (drop k ts)) \<longleftrightarrow> (\<exists>k. spec_match w' (drop k t))"
      unfolding ws_def ts_def w by (rule segment_after_star [OF lit])
    also have "\<dots> \<longleftrightarrow> (\<exists>k. spec_match w1 (drop k t))"
      unfolding w1_def by (rule spec_match_collapse_stars)
    finally have E: "(\<exists>k. spec_match ws (drop k ts)) \<longleftrightarrow> (\<exists>k. spec_match w1 (drop k t))" .
    show ?thesis
    proof (cases "w1 = []")
      case True
      then have "spec_match w1 (drop (length t) t)" by simp
      then have "\<exists>k. spec_match w1 (drop k t)" ..
      with E have "\<exists>k. spec_match ws (drop k ts)" by simp
      moreover from body True have "resume_body s = Inl True" by simp
      then have "resume_loop s = Some True" by (rule stop)
      ultimately show ?thesis by simp
    next
      case w1n: False
      have h1: "hd w1 \<noteq> [STAR]"
        using w1n hd_dropWhile [of "\<lambda>u. u = [STAR]" w'] unfolding w1_def by simp
      have h2: "hd w1 \<noteq> [QMARK]" using w1n nqw1 by (metis hd_in_set)
      have E2: "(\<exists>k. spec_match w1 (drop k t)) \<longleftrightarrow> (\<exists>k. spec_match w1 (drop k t1))"
        unfolding t1_def by (rule segment_restart [OF w1n h1 h2])
      show ?thesis
      proof (cases "t \<noteq> [] \<and> hd w1 \<in> set t")
        case False
        then have "t1 = []" unfolding t1_def by (auto simp: dropWhile_eq_Nil_conv)
        then have "\<not> (\<exists>k. spec_match w1 (drop k t1))"
          using segment_no_match_Nil [OF w1n h1] by simp
        with E E2 have "\<not> (\<exists>k. spec_match ws (drop k ts))" by simp
        moreover from body w1n False have "resume_body s = Inl False" by auto
        then have "resume_loop s = Some False" by (rule stop)
        ultimately show ?thesis by simp
      next
        case True
        then have t1n: "t1 \<noteq> []" unfolding t1_def by (simp add: dropWhile_eq_Nil_conv)
        then have ht1: "hd t1 = hd w1"
          using hd_dropWhile [of "\<lambda>v. v \<noteq> hd w1" t] unfolding t1_def by simp
        have w1e: "[hd w1] @ tl w1 = w1" using w1n by simp
        have t1e: "[hd w1] @ tl t1 = t1" using t1n ht1 by (cases t1) auto
        from body w1n True have "resume_body s =
          Inr (concat (tl w1) @ rest, concat (tl t1) @ rest', concat w1 @ rest, concat t1 @ rest')"
          by simp
        then have "resume_body s =
          Inr (concat (tl w1) @ rest, concat (tl t1) @ rest',
               concat ([hd w1] @ tl w1) @ rest, concat ([hd w1] @ tl t1) @ rest')"
          by (simp only: w1e t1e)
        then have "resume_loop s =
          Some (\<exists>k. spec_match ([hd w1] @ tl w1) (drop k ([hd w1] @ tl t1)))"
        proof (rule continue)
          show "\<forall>u \<in> set ([hd w1] @ tl w1). well_formed_unit u"
            unfolding w1e by (rule wfw1)
          show "\<forall>v \<in> set ([hd w1] @ tl t1). well_formed_unit v"
            unfolding t1e by (rule wft1)
          show "[QMARK] \<notin> set ([hd w1] @ tl w1)" unfolding w1e by (rule nqw1)
          show "[STAR] \<notin> set [hd w1]" using h1 by simp
          show "[hd w1] @ tl w1 \<noteq> []" by simp
          show "hd ([hd w1] @ tl w1) \<noteq> [STAR]" using h1 by simp
        qed
        then show ?thesis by (simp only: w1e t1e E E2)
      qed
    qed
  next
    case nostar: False
    have noq: "\<not> (w \<noteq> [] \<and> hd w = [QMARK])" using nqw by (cases w) auto
    show ?thesis
    proof (cases "(w = [] \<and> t = []) \<or> (w \<noteq> [] \<and> t \<noteq> [] \<and> hd w = hd t)")
      case match: True
      have body: "resume_body s =
           (if t = [] then Inl True
            else Inr (concat (tl w) @ rest, concat (tl t) @ rest',
                      concat ws @ rest, concat ts @ rest'))"
        unfolding s by (rule match_pass_units [OF wfw z wft z' nostar match])
      show ?thesis
      proof (cases "t = []")
        case True
        with match have "w = []" by simp
        with True have "spec_match ws (drop 0 ts)"
          unfolding ws_def ts_def using spec_match_literals [OF lit, of "[]" m] by simp
        then have "\<exists>k. spec_match ws (drop k ts)" ..
        moreover from body True have "resume_body s = Inl True" by simp
        then have "resume_loop s = Some True" by (rule stop)
        ultimately show ?thesis by simp
      next
        case tn: False
        with match have wn: "w \<noteq> []" and hd: "hd w = hd t" by auto
        have we: "(m @ [hd w]) @ tl w = ws" unfolding ws_def using wn by simp
        have te: "(m @ [hd w]) @ tl t = ts" unfolding ts_def using tn hd by simp
        from body tn have "resume_body s =
          Inr (concat (tl w) @ rest, concat (tl t) @ rest', concat ws @ rest, concat ts @ rest')"
          by simp
        then have "resume_body s =
          Inr (concat (tl w) @ rest, concat (tl t) @ rest',
               concat ((m @ [hd w]) @ tl w) @ rest, concat ((m @ [hd w]) @ tl t) @ rest')"
          by (simp only: we te)
        then have "resume_loop s =
          Some (\<exists>k. spec_match ((m @ [hd w]) @ tl w) (drop k ((m @ [hd w]) @ tl t)))"
        proof (rule continue)
          show "\<forall>u \<in> set ((m @ [hd w]) @ tl w). well_formed_unit u"
            unfolding we by (rule wfws)
          show "\<forall>v \<in> set ((m @ [hd w]) @ tl t). well_formed_unit v"
            unfolding te by (rule wfts)
          show "[QMARK] \<notin> set ((m @ [hd w]) @ tl w)" unfolding we by (rule nq)
          show "[STAR] \<notin> set (m @ [hd w])" using ns nostar wn by simp
          show "(m @ [hd w]) @ tl w \<noteq> []" unfolding we by (rule ne)
          show "hd ((m @ [hd w]) @ tl w) \<noteq> [STAR]" unfolding we by (rule hs)
        qed
        then show ?thesis by (simp only: we te)
      qed
    next
      case mismatch: False
      define ts1 where "ts1 = dropWhile (\<lambda>v. v \<noteq> hd ws) (tl ts)"
      have wfts1: "\<forall>v \<in> set ts1. well_formed_unit v"
        using wfts unfolding ts1_def by (auto dest: set_dropWhileD in_set_tl)
      have body: "resume_body s =
           (if t = [] then Inl False
            else if hd ws \<in> set (tl ts)
                 then Inr (concat (tl ws) @ rest, concat (tl ts1) @ rest',
                           concat ws @ rest, concat ts1 @ rest')
                 else Inl False)"
        unfolding s ts1_def
        by (rule fall_back_units [OF wfw z wft z' wfws wfts ne hq nostar noq mismatch])
      have nomatch: "\<not> spec_match ws ts"
        unfolding ws_def ts_def by (rule segment_mismatch [OF lit nostar noq mismatch])
      show ?thesis
      proof (cases "t = []")
        case True
        with mismatch have wn: "w \<noteq> []" by simp
        with nostar have hw: "hd w \<noteq> [STAR]" by simp
        have "\<not> (\<exists>k. spec_match ws (drop k ts))"
          unfolding ws_def ts_def True by (rule segment_too_short [OF lit wn hw])
        moreover from body True have "resume_body s = Inl False" by simp
        then have "resume_loop s = Some False" by (rule stop)
        ultimately show ?thesis by simp
      next
        case tn: False
        then have tsn: "ts \<noteq> []" unfolding ts_def by simp
        have E: "(\<exists>k. spec_match ws (drop k ts)) \<longleftrightarrow> (\<exists>k. spec_match ws (drop k ts1))"
          unfolding ts1_def by (rule segment_fall_back [OF ne hs hq tsn nomatch])
        show ?thesis
        proof (cases "hd ws \<in> set (tl ts)")
          case False
          then have "ts1 = []" unfolding ts1_def by (auto simp: dropWhile_eq_Nil_conv)
          then have "\<not> (\<exists>k. spec_match ws (drop k ts1))"
            using segment_no_match_Nil [OF ne hs] by simp
          with E have "\<not> (\<exists>k. spec_match ws (drop k ts))" by simp
          moreover from body tn False have "resume_body s = Inl False" by simp
          then have "resume_loop s = Some False" by (rule stop)
          ultimately show ?thesis by simp
        next
          case True
          then have ts1n: "ts1 \<noteq> []" unfolding ts1_def by (simp add: dropWhile_eq_Nil_conv)
          then have hts1: "hd ts1 = hd ws"
            using hd_dropWhile [of "\<lambda>v. v \<noteq> hd ws" "tl ts"] unfolding ts1_def by simp
          have we: "[hd ws] @ tl ws = ws" using ne by simp
          have te: "[hd ws] @ tl ts1 = ts1" using ts1n hts1 by (cases ts1) auto
          from body tn True have "resume_body s =
            Inr (concat (tl ws) @ rest, concat (tl ts1) @ rest',
                 concat ws @ rest, concat ts1 @ rest')"
            by simp
          then have "resume_body s =
            Inr (concat (tl ws) @ rest, concat (tl ts1) @ rest',
                 concat ([hd ws] @ tl ws) @ rest, concat ([hd ws] @ tl ts1) @ rest')"
            by (simp only: we te)
          then have "resume_loop s =
            Some (\<exists>k. spec_match ([hd ws] @ tl ws) (drop k ([hd ws] @ tl ts1)))"
          proof (rule continue)
            show "\<forall>u \<in> set ([hd ws] @ tl ws). well_formed_unit u"
              unfolding we by (rule wfws)
            show "\<forall>v \<in> set ([hd ws] @ tl ts1). well_formed_unit v"
              unfolding te by (rule wfts1)
            show "[QMARK] \<notin> set ([hd ws] @ tl ws)" unfolding we by (rule nq)
            show "[STAR] \<notin> set [hd ws]" using hs by simp
            show "[hd ws] @ tl ws \<noteq> []" by simp
            show "hd ([hd ws] @ tl ws) \<noteq> [STAR]" using hs by simp
          qed
          then show ?thesis by (simp only: we te E)
        qed
      qed
    qed
  qed
  then show ?case unfolding ws_def ts_def .
qed

subsection \<open>The first loop\<close>

lemma no_question_after_star_Cons:
  "no_question_after_star (u # us) \<Longrightarrow> u \<noteq> [STAR] \<Longrightarrow> no_question_after_star us"
  by (simp add: no_question_after_star_def)

lemma no_question_after_star_at_star:
  "no_question_after_star ([STAR] # us) \<Longrightarrow> [QMARK] \<notin> set us"
  by (simp add: no_question_after_star_def)

lemma scan_loop_units:
  assumes z: "deref rest = 0" and z': "deref rest' = 0"
  shows "\<forall>u \<in> set us. well_formed_unit u \<Longrightarrow> \<forall>v \<in> set vs. well_formed_unit v \<Longrightarrow>
         no_question_after_star us \<Longrightarrow>
         scan_loop (concat us @ rest) (concat vs @ rest') = Some (spec_match us vs)"
proof (induction us arbitrary: vs)
  case Nil
  define pt where "pt = concat vs @ rest'"
  have dt: "deref pt = 0 \<longleftrightarrow> vs = []"
    unfolding pt_def by (rule deref_units(2) [OF Nil.prems(2) z'])
  have cmp: "CodePointCompare rest pt \<longleftrightarrow> vs = []"
    using compare_units [OF Nil.prems(1) z Nil.prems(2) z'] unfolding pt_def by simp
  have "scan_loop rest pt = Some (vs = [])"
    unfolding scan_loop.simps [of rest pt] using dt cmp z
    by (simp add: STAR_def QMARK_def)
  then show ?case unfolding pt_def by (cases vs) simp_all
next
  case (Cons u us)
  note wfw = Cons.prems(1) and wft = Cons.prems(2) and cls = Cons.prems(3)
  define pw where "pw = concat (u # us) @ rest"
  define pt where "pt = concat vs @ rest'"
  have wfus: "\<forall>u \<in> set us. well_formed_unit u" using wfw by simp
  have wftl: "\<forall>v \<in> set (tl vs). well_formed_unit v" using wft by (auto dest: in_set_tl)
  have dt: "deref pt = 0 \<longleftrightarrow> vs = []" unfolding pt_def by (rule deref_units(2) [OF wft z'])
  have dz: "deref pw \<noteq> 0" unfolding pw_def using deref_units(2) [OF wfw z] by simp
  have ds: "deref pw = STAR \<longleftrightarrow> u = [STAR]"
    unfolding pw_def using deref_units(3) [OF wfw z] by simp
  have dq: "deref pw = QMARK \<longleftrightarrow> u = [QMARK]"
    unfolding pw_def using deref_units(4) [OF wfw z] by simp
  have aw: "snd (CodePointAdvance pw) = concat us @ rest"
    unfolding pw_def using advance_units [OF wfw z] by simp
  have at: "snd (CodePointAdvance pt) = concat (tl vs) @ rest'"
    unfolding pt_def using advance_units [OF wft z'] by simp
  have cmp: "CodePointCompare pw pt \<longleftrightarrow> vs \<noteq> [] \<and> u = hd vs"
    unfolding pw_def pt_def using compare_units [OF wfw z wft z'] by simp
  have result: "scan_loop pw pt = Some (spec_match (u # us) vs)"
  proof (cases "vs = []")
    case True
    have "trailing_stars pw \<longleftrightarrow> (\<forall>x \<in> set (u # us). x = [STAR])"
      unfolding pw_def by (rule trailing_stars_units [OF wfw z]) simp
    then have "scan_loop pw pt = Some (\<forall>x \<in> set (u # us). x = [STAR])"
      unfolding scan_loop.simps [of pw pt] using dt dz True by simp
    then show ?thesis unfolding True spec_match_Nil_right .
  next
    case vn: False
    show ?thesis
    proof (cases "u = [STAR]")
      case star: True
      define w1 where "w1 = dropWhile (\<lambda>x. x = [STAR]) us"
      define t1 where "t1 = dropWhile (\<lambda>v. v \<noteq> hd w1) vs"
      have wfw1: "\<forall>x \<in> set w1. well_formed_unit x"
        using wfus unfolding w1_def by (auto dest: set_dropWhileD)
      have wft1: "\<forall>v \<in> set t1. well_formed_unit v"
        using wft unfolding t1_def by (auto dest: set_dropWhileD)
      have "[QMARK] \<notin> set us" using cls star by (simp add: no_question_after_star_at_star)
      then have nqw1: "[QMARK] \<notin> set w1" unfolding w1_def by (auto dest: set_dropWhileD)
      have ss: "skip_stars pw = concat w1 @ rest"
        unfolding pw_def w1_def using skip_stars_units [OF z wfw] by simp
      have "spec_match (u # us) vs \<longleftrightarrow> (\<exists>k. spec_match us (drop k vs))"
        unfolding star by (rule spec_match_star)
      also have "\<dots> \<longleftrightarrow> (\<exists>k. spec_match w1 (drop k vs))"
        unfolding w1_def by (rule spec_match_collapse_stars)
      finally have E: "spec_match (u # us) vs \<longleftrightarrow> (\<exists>k. spec_match w1 (drop k vs))" .
      show ?thesis
      proof (cases "w1 = []")
        case True
        then have "spec_match w1 (drop (length vs) vs)" by simp
        then have "\<exists>k. spec_match w1 (drop k vs)" ..
        with E have "spec_match (u # us) vs" by simp
        moreover have "scan_loop pw pt = Some True"
          unfolding scan_loop.simps [of pw pt]
          using dt vn ds star ss True z by (simp add: Let_def)
        ultimately show ?thesis by simp
      next
        case w1n: False
        have h1: "hd w1 \<noteq> [STAR]"
          using w1n hd_dropWhile [of "\<lambda>x. x = [STAR]" us] unfolding w1_def by simp
        have h2: "hd w1 \<noteq> [QMARK]" using w1n nqw1 by (metis hd_in_set)
        have d0: "deref (concat w1 @ rest) \<noteq> 0"
          using deref_units(2) [OF wfw1 z] w1n by simp
        have dq1: "deref (concat w1 @ rest) \<noteq> QMARK"
          using deref_units(4) [OF wfw1 z] h2 by simp
        have E2: "(\<exists>k. spec_match w1 (drop k vs)) \<longleftrightarrow> (\<exists>k. spec_match w1 (drop k t1))"
          unfolding t1_def by (rule segment_restart [OF w1n h1 h2])
        have fn: "find_next (concat w1 @ rest) pt =
                    (if hd w1 \<in> set vs then Some (concat t1 @ rest') else None)"
          unfolding pt_def t1_def using find_next_units [OF wfw1 z w1n z' wft] by simp
        have body: "scan_loop pw pt =
          (case find_next (concat w1 @ rest) pt of
             None \<Rightarrow> Some False
           | Some p \<Rightarrow> resume_loop (concat w1 @ rest, p, concat w1 @ rest, p))"
          unfolding scan_loop.simps [of pw pt]
          using dt vn ds star ss d0 dq1 by (simp add: Let_def)
        show ?thesis
        proof (cases "hd w1 \<in> set vs")
          case False
          then have "t1 = []" unfolding t1_def by (auto simp: dropWhile_eq_Nil_conv)
          then have "\<not> (\<exists>k. spec_match w1 (drop k t1))"
            using segment_no_match_Nil [OF w1n h1] by simp
          with E E2 have "\<not> spec_match (u # us) vs" by simp
          moreover from body fn False have "scan_loop pw pt = Some False" by simp
          ultimately show ?thesis by simp
        next
          case True
          from body fn True have "scan_loop pw pt =
            resume_loop (concat w1 @ rest, concat t1 @ rest', concat w1 @ rest, concat t1 @ rest')"
            by simp
          also have "\<dots> = Some (\<exists>k. spec_match ([] @ w1) (drop k ([] @ t1)))"
          proof (rule resume_loop_units [OF z z'])
            show "(concat w1 @ rest, concat t1 @ rest', concat w1 @ rest, concat t1 @ rest') =
                  (concat w1 @ rest, concat t1 @ rest',
                   concat ([] @ w1) @ rest, concat ([] @ t1) @ rest')" by simp
            show "\<forall>x \<in> set ([] @ w1). well_formed_unit x" using wfw1 by simp
            show "\<forall>v \<in> set ([] @ t1). well_formed_unit v" using wft1 by simp
            show "[QMARK] \<notin> set ([] @ w1)" using nqw1 by simp
            show "[STAR] \<notin> set []" by simp
            show "[] @ w1 \<noteq> []" using w1n by simp
            show "hd ([] @ w1) \<noteq> [STAR]" using h1 by simp
          qed
          finally show ?thesis using E E2 by simp
        qed
      qed
    next
      case nostar: False
      have cls': "no_question_after_star us"
        using cls nostar by (rule no_question_after_star_Cons)
      have IH: "scan_loop (concat us @ rest) (concat (tl vs) @ rest') =
                  Some (spec_match us (tl vs))"
        by (rule Cons.IH [OF wfus wftl cls'])
      have v: "vs = hd vs # tl vs" using vn by simp
      show ?thesis
      proof (cases "u = [QMARK] \<or> u = hd vs")
        case True
        then have "scan_loop pw pt = scan_loop (concat us @ rest) (concat (tl vs) @ rest')"
          unfolding scan_loop.simps [of pw pt]
          using dt vn ds nostar dq cmp aw at by auto
        with IH have "scan_loop pw pt = Some (spec_match us (tl vs))" by simp
        moreover have "spec_match (u # us) vs \<longleftrightarrow> spec_match us (tl vs)"
          using True nostar spec_match.simps(3) [of u us "hd vs" "tl vs"] v by simp
        ultimately show ?thesis by simp
      next
        case False
        then have "scan_loop pw pt = Some False"
          unfolding scan_loop.simps [of pw pt]
          using dt vn ds nostar dq cmp by simp
        moreover have "\<not> spec_match (u # us) vs"
          using False nostar spec_match.simps(3) [of u us "hd vs" "tl vs"] v by simp
        ultimately show ?thesis by simp
      qed
    qed
  qed
  then show ?case unfolding pw_def pt_def .
qed

lemma FastWildCompareUtf8_units:
  assumes "\<forall>u \<in> set us. well_formed_unit u" "deref rest = 0"
    and "\<forall>v \<in> set vs. well_formed_unit v" "deref rest' = 0"
    and "no_question_after_star us"
  shows "FastWildCompareUtf8 (concat us @ rest) (concat vs @ rest') = Some (spec_match us vs)"
  unfolding FastWildCompareUtf8_def
  by (rule scan_loop_units [OF assms(2,4,1,3,5)])

section \<open>Pattern positions and wildcard recognition\<close>

text \<open>
  Every way in which the matcher moves a pattern pointer leads from the start of a unit to
  the start of a unit: the advance by one unit, the two collapses of a run of \<open>*\<close>, the
  skip of \<open>?\<close> in front of the fall back, and so each pass of the second loop as a whole.
\<close>

lemma start_in_unit_starts: "concat us @ rest \<in> set (unit_starts us rest)"
  by (cases us) auto

lemma unit_starts_cases:
  assumes "w \<in> set (unit_starts us rest)"
  obtains (terminator) "w = rest"
  | (unit) u v where "u \<in> set us" "w = u @ v" "v \<in> set (unit_starts us rest)"
  using assms
proof (induction us arbitrary: thesis)
  case Nil
  then show ?case by simp
next
  case (Cons a us)
  from Cons.prems(3) consider "w = a @ concat us @ rest" | "w \<in> set (unit_starts us rest)"
    by auto
  then show ?case
  proof cases
    case 1
    show ?thesis
      by (rule Cons.prems(2) [of a "concat us @ rest"])
         (use 1 start_in_unit_starts [of us rest] in auto)
  next
    case 2
    show ?thesis
    proof (rule Cons.IH [OF _ _ 2])
      assume "w = rest"
      then show thesis by (rule Cons.prems(1))
    next
      fix u v
      assume "u \<in> set us" "w = u @ v" "v \<in> set (unit_starts us rest)"
      then show thesis using Cons.prems(2) [of u v] by auto
    qed
  qed
qed

lemma advance_in_unit_starts:
  assumes "\<forall>u \<in> set us. well_formed_unit u" "deref rest = 0"
    and "w \<in> set (unit_starts us rest)"
  shows "snd (CodePointAdvance w) \<in> set (unit_starts us rest)"
  using assms(3)
proof (cases rule: unit_starts_cases)
  case terminator
  with assms(2,3) show ?thesis by (simp add: advance_at_zero)
next
  case (unit u v)
  with assms(1) show ?thesis by (simp add: advance_unit)
qed

lemma wildcard_in_unit_starts:
  assumes "\<forall>u \<in> set us. well_formed_unit u" "deref rest = 0"
    and "w \<in> set (unit_starts us rest)" "deref w = STAR \<or> deref w = QMARK"
  shows "[deref w] \<in> set us \<and> w = deref w # tl w \<and> tl w \<in> set (unit_starts us rest)"
  using assms(3)
proof (cases rule: unit_starts_cases)
  case terminator
  with assms(2,4) show ?thesis by (auto simp: STAR_def QMARK_def)
next
  case (unit u v)
  with assms(1) have wf: "well_formed_unit u" by simp
  define b where "b = deref w"
  from deref_unit [OF wf, of v] unit(2) have "hd u = b" by (simp add: b_def)
  moreover from assms(4) have "b = STAR \<or> b = QMARK" by (simp add: b_def)
  ultimately have "u = [b]" using unit_lead_STAR [OF wf] unit_lead_QMARK [OF wf] by metis
  with unit have "[b] \<in> set us" "w = b # v" "v \<in> set (unit_starts us rest)" by simp_all
  then have "[b] \<in> set us \<and> w = b # tl w \<and> tl w \<in> set (unit_starts us rest)" by simp
  then show ?thesis unfolding b_def by (simp only: deref_Cons [symmetric])
qed

lemma skip_stars_in_unit_starts:
  assumes "\<forall>u \<in> set us. well_formed_unit u" "deref rest = 0"
  shows "w \<in> set (unit_starts us rest) \<Longrightarrow> skip_stars w \<in> set (unit_starts us rest)"
proof (induction w rule: skip_stars.induct)
  case (1 pWild)
  obtain more w' where adv: "CodePointAdvance pWild = (more, w')"
    by (cases "CodePointAdvance pWild")
  with advance_in_unit_starts [OF assms "1.prems"] have w': "w' \<in> set (unit_starts us rest)"
    by simp
  show ?case
  proof (cases "more \<and> deref w' = STAR")
    case True
    with "1.IH" [OF adv [symmetric] _ w'] adv show ?thesis
      by (subst skip_stars.simps) simp
  next
    case False
    with adv w' show ?thesis by (subst skip_stars.simps) auto
  qed
qed

lemma next_non_star_in_unit_starts:
  assumes "\<forall>u \<in> set us. well_formed_unit u" "deref rest = 0"
  shows "w \<in> set (unit_starts us rest) \<Longrightarrow> deref w = STAR \<Longrightarrow>
         next_non_star w \<in> set (unit_starts us rest)"
proof (induction w rule: next_non_star.induct)
  case (1 pWild)
  from wildcard_in_unit_starts [OF assms "1.prems"(1)] "1.prems"(2)
  have tl: "tl pWild \<in> set (unit_starts us rest)" by simp
  show ?case
  proof (cases "deref (tl pWild) = STAR")
    case True
    with "1.IH" [OF refl True tl True] show ?thesis
      by (subst next_non_star.simps) (simp add: Let_def)
  next
    case False
    with tl show ?thesis by (subst next_non_star.simps) (simp add: Let_def)
  qed
qed

lemma skip_questions_in_unit_starts:
  assumes "\<forall>u \<in> set us. well_formed_unit u" "deref rest = 0"
  shows "ws \<in> set (unit_starts us rest) \<Longrightarrow>
         fst (skip_questions ws ts) \<in> set (unit_starts us rest)"
proof (induction ws ts rule: skip_questions.induct)
  case (1 pWildSequence pTameSequence)
  show ?case
  proof (cases "deref pWildSequence = QMARK")
    case True
    from wildcard_in_unit_starts [OF assms "1.prems"] True
    have "tl pWildSequence \<in> set (unit_starts us rest)" by simp
    from "1.IH" [OF True this] True show ?thesis
      by (subst skip_questions.simps) simp
  next
    case False
    with "1.prems" show ?thesis by (subst skip_questions.simps) simp
  qed
qed

lemma resume_body_in_unit_starts:
  assumes wf: "\<forall>u \<in> set us. well_formed_unit u" "deref rest = 0"
    and w: "w \<in> set (unit_starts us rest)" and ws: "ws \<in> set (unit_starts us rest)"
    and body: "resume_body (w, t, ws, ts) = Inr (w', t', ws', ts')"
  shows "w' \<in> set (unit_starts us rest) \<and> ws' \<in> set (unit_starts us rest)"
proof (cases "deref w = STAR")
  case True
  define w1 where "w1 = next_non_star w"
  have w1: "w1 \<in> set (unit_starts us rest)"
    unfolding w1_def by (rule next_non_star_in_unit_starts [OF wf w True])
  from body True obtain t1 where "end_check (w1, t1, w1, t1) = Inr (w', t', ws', ts')"
    unfolding w1_def
    by (auto simp: Let_def simp del: end_check.simps split: if_splits option.splits)
  from end_check_pattern [OF this] w1 advance_in_unit_starts [OF wf w1] show ?thesis by simp
next
  case False
  show ?thesis
  proof (cases "\<not> CodePointCompare w t \<and> deref w \<noteq> QMARK")
    case True
    obtain ws1 ts1 where sq: "skip_questions ws ts = (ws1, ts1)"
      by (cases "skip_questions ws ts")
    with skip_questions_in_unit_starts [OF wf ws, of ts]
    have ws1: "ws1 \<in> set (unit_starts us rest)" by simp
    from body False True sq obtain ts2 where
      "end_check (ws1, ts2, ws1, ts2) = Inr (w', t', ws', ts')"
      by (auto simp: Let_def simp del: end_check.simps split: if_splits option.splits)
    from end_check_pattern [OF this] ws1 advance_in_unit_starts [OF wf ws1] show ?thesis by simp
  next
    case nomis: False
    with body False have "end_check (w, t, ws, ts) = Inr (w', t', ws', ts')"
      by (auto simp del: end_check.simps split: if_splits)
    from end_check_pattern [OF this] ws advance_in_unit_starts [OF wf w] show ?thesis by simp
  qed
qed



section \<open>Verdicts of the bounded matcher\<close>

lemma zero_pattern_limit_any:
  "FastWildLenCompareUtf8 pWild pTame 0 lenTame = Some (lenTame \<le> 0 \<or> deref pTame = 0)"
  by (auto simp: FastWildLenCompareUtf8_def len_scan_loop.simps [of 0 lenTame pWild pTame 0])

text \<open>
  C10: with a pattern limit of zero and a subject limit that is a count (not negative), the
  bounded matcher returns true exactly when the subject limit is zero or the subject begins
  with the terminator; with both limits zero it returns true for all buffers.  (The lemma
  before covers every value of the \<^verbatim>\<open>int\<close> parameter: a negative subject limit acts as
  zero.)
\<close>

theorem zero_pattern_limit:
  "0 \<le> lenTame \<Longrightarrow>
   FastWildLenCompareUtf8 pWild pTame 0 lenTame = Some (lenTame = 0 \<or> deref pTame = 0) \<and>
   FastWildLenCompareUtf8 pWild pTame 0 0 = Some True"
  using zero_pattern_limit_any [of pWild pTame lenTame] zero_pattern_limit_any [of pWild pTame 0]
  by auto

theorem zero_pattern_limit_witness:
  "(0::int) \<le> 2 \<and>
   FastWildLenCompareUtf8 (ascii ''*'') (ascii ''ab'') 0 2 = Some False \<and>
   FastWildLenCompareUtf8 (ascii ''*'') (ascii ''ab'') 0 0 = Some True"
  using zero_pattern_limit [of 2 "ascii ''*''" "ascii ''ab''"]
  by (simp add: ascii_def)

section \<open>The question-mark skip of the fall back\<close>

text \<open>
  Against a subject of one well-formed unit of any width, the pattern \<open>?\<close> matches and the
  pattern \<open>??\<close> does not: in the first loop a \<open>?\<close> is passed by one advance of each
  pointer.  The skip in front of the fall back is different: it drops as many bytes from the
  saved subject position as there are \<open>?\<close> at the saved pattern position (lemma
  \<open>skip_questions_bytes\<close> above).
\<close>

lemma question_against_one_unit:
  assumes "well_formed_unit u" and "deref rest = 0"
  shows "FastWildCompareUtf8 [QMARK] (u @ rest) = Some True"
    and "FastWildCompareUtf8 [QMARK, QMARK] (u @ rest) = Some False"
proof -
  from deref_unit [OF assms(1), of rest] have nz: "deref (u @ rest) \<noteq> 0" by simp
  have q: "snd (CodePointAdvance (QMARK # p)) = p" for p
    by (simp add: CodePointAdvance_def advance_width_def QMARK_def
        SINGLETON_LIMIT_def TWOFER_LIMIT_def THREESOME_LIMIT_def)
  have "scan_loop [QMARK] (u @ rest) = scan_loop [] rest"
    using nz advance_unit [OF assms(1), of rest] q [of "[]"]
    by (subst scan_loop.simps) (simp add: STAR_def QMARK_def)
  also have "\<dots> = Some True" using assms(2) by (subst scan_loop.simps) simp
  finally show "FastWildCompareUtf8 [QMARK] (u @ rest) = Some True"
    by (simp add: FastWildCompareUtf8_def)
  have "scan_loop [QMARK, QMARK] (u @ rest) = scan_loop [QMARK] rest"
    using nz advance_unit [OF assms(1), of rest] q [of "[QMARK]"]
    by (subst scan_loop.simps) (simp add: STAR_def QMARK_def)
  also have "\<dots> = Some (trailing_stars [QMARK])"
    using assms(2) by (subst scan_loop.simps) (simp add: QMARK_def)
  also have "\<dots> = Some False" by (subst trailing_stars.simps) (simp add: STAR_def QMARK_def)
  finally show "FastWildCompareUtf8 [QMARK, QMARK] (u @ rest) = Some False"
    by (simp add: FastWildCompareUtf8_def)
qed

text \<open>
  C2 (the code departs from the claim): in front of the fall back, the loop that skips the
  \<open>?\<close> units of the saved pattern position moves the saved subject position by one byte per
  \<open>?\<close>, not by one unit.  With the pattern \<open>*??ab\<close> and the subject \<open>E2 82 AC 61 62\<close> (a
  three-byte unit, then \<open>ab\<close>: three units in all) the skip leaves the saved subject
  position on the last byte of the three-byte unit, and the matcher returns true although
  the pattern needs at least four units.
\<close>

theorem question_skip_is_bytewise:
  "skip_questions (ascii ''??ab'') ([0xE2, 0x82, 0xAC] @ ascii ''ab'') =
     (ascii ''ab'', [0xAC] @ ascii ''ab'') \<and>
   CodePointCount ([0xE2, 0x82, 0xAC] @ ascii ''ab'') = 3 \<and>
   FastWildCompareUtf8 (ascii ''*??ab'') ([0xE2, 0x82, 0xAC] @ ascii ''ab'') = Some True"
  by code_simp

section \<open>The bounded matcher against the unbounded matcher\<close>

text \<open>
  On strings of single-byte units the bytewise skip is a skip by units, and the two matchers
  agree: each inner loop of the bounded matcher returns what its unbounded counterpart
  returns, each pass of the second loop keeps the counters fitting the pointers, and a limit
  is reached only where the terminator is.
\<close>

lemma sb_Nil [simp]: "single_byte_units []"
  by (simp add: single_byte_units_def)

lemma sb_Cons: "single_byte_units (b # s) \<longleftrightarrow> b \<noteq> 0 \<and> \<not> b > SINGLETON_LIMIT \<and> single_byte_units s"
  by (auto simp: single_byte_units_def)

lemma sb_tl: "single_byte_units s \<Longrightarrow> single_byte_units (tl s)"
  by (cases s) (auto simp: sb_Cons)

lemma sb_deref: "single_byte_units s \<Longrightarrow> deref s = 0 \<longleftrightarrow> s = []"
  by (cases s) (auto simp: sb_Cons)

lemma sb_width: "single_byte_units s \<Longrightarrow> advance_width s = (if s = [] then 0 else 1)"
proof (cases s)
  case Nil
  then show ?thesis by (simp add: advance_width_zero)
next
  case (Cons b s')
  assume "single_byte_units s"
  with Cons have "b \<noteq> 0" "\<not> b > SINGLETON_LIMIT" by (auto simp: sb_Cons)
  moreover from this have "\<not> b > TWOFER_LIMIT" "\<not> b > THREESOME_LIMIT"
    using limits_ordered by blast+
  ultimately show ?thesis using Cons by (simp add: advance_width_def word_greater_zero_iff)
qed

lemma sb_advance:
  "single_byte_units s \<Longrightarrow> CodePointAdvance s = (tl s \<noteq> [], tl s)"
  using sb_deref [OF sb_tl, of s]
  by (cases s) (auto simp: CodePointAdvance_def Let_def sb_width)

lemma sb_advance_compare:
  "single_byte_units s \<Longrightarrow> CodePointAdvanceAndCompare a s = (CodePointCompare a (tl s), tl s)"
  by (cases s) (auto simp: CodePointAdvanceAndCompare_def Let_def sb_width)

lemma sb_count_loop:
  "single_byte_units s \<Longrightarrow> count_loop s n = n + length (tl s)"
proof (induction s arbitrary: n)
  case Nil
  then show ?case by (subst count_loop.simps) (simp add: sb_advance)
next
  case (Cons b s)
  then have s: "single_byte_units s" by (simp add: sb_Cons)
  show ?case
  proof (cases s)
    case Nil
    with Cons.prems show ?thesis by (subst count_loop.simps) (simp add: sb_advance)
  next
    case (Cons c s')
    with Cons.IH [OF s, of "n + 1"] Cons.prems show ?thesis
      by (subst count_loop.simps) (simp add: sb_advance)
  qed
qed

lemma sb_CodePointCount: "single_byte_units s \<Longrightarrow> CodePointCount s = length s"
  by (cases s) (auto simp: CodePointCount_def sb_count_loop sb_Cons word_greater_zero_iff)


lemma sb_len_trailing_stars:
  "single_byte_units w \<Longrightarrow> w \<noteq> [] \<Longrightarrow> i + int (length w) = L \<Longrightarrow>
   len_trailing_stars L w i = trailing_stars w"
proof (induction w arbitrary: i)
  case Nil
  then show ?case by simp
next
  case (Cons b w)
  then have w: "single_byte_units w" by (simp add: sb_Cons)
  note unfold = len_trailing_stars.simps [of L "b # w" i] trailing_stars.simps [of "b # w"]
  show ?case
  proof (cases "b = STAR")
    case False
    then show ?thesis unfolding unfold by simp
  next
    case True
    show ?thesis
    proof (cases "w = []")
      case True
      with \<open>b = STAR\<close> Cons.prems(3) show ?thesis unfolding unfold by simp
    next
      case False
      with sb_deref [OF w] have nz: "deref w \<noteq> 0" by simp
      from False Cons.prems(3) have "\<not> L \<le> i + 1" by (cases w) auto
      moreover from Cons.prems(3) have "(i + 1) + int (length w) = L" by simp
      from Cons.IH [OF w False this]
      have "len_trailing_stars L w (i + 1) = trailing_stars w" .
      ultimately show ?thesis using \<open>b = STAR\<close> nz unfolding unfold by simp
    qed
  qed
qed

lemma sb_len_skip_stars:
  "single_byte_units w \<Longrightarrow> i + int (length w) = L \<Longrightarrow>
   fst (len_skip_stars L w i) = skip_stars w \<and>
   (skip_stars w \<noteq> [] \<longrightarrow> snd (len_skip_stars L w i) + int (length (skip_stars w)) = L)"
proof (induction w arbitrary: i)
  case Nil
  then show ?case
    unfolding len_skip_stars.simps [of L "[]" i] skip_stars.simps [of "[]"]
    by (simp add: sb_advance)
next
  case (Cons b w)
  then have w: "single_byte_units w" by (simp add: sb_Cons)
  have adv: "CodePointAdvance (b # w) = (w \<noteq> [], w)"
    using sb_advance [OF Cons.prems(1)] by simp
  note unfold = len_skip_stars.simps [of L "b # w" i] skip_stars.simps [of "b # w"]
  show ?case
  proof (cases "w \<noteq> [] \<and> deref w = STAR")
    case True
    with Cons.prems(2) have lt: "i + 1 < L" by (cases w) auto
    from Cons.prems(2) have "(i + 1) + int (length w) = L" by simp
    from Cons.IH [OF w this] True lt adv show ?thesis unfolding unfold by simp
  next
    case False
    with adv Cons.prems(2) show ?thesis unfolding unfold by auto
  qed
qed

lemma sb_len_find_next:
  "single_byte_units t \<Longrightarrow>
   (case find_next w t of
      None \<Rightarrow> len_find_next w t it = None
    | Some t' \<Rightarrow> len_find_next w t it = Some (t', it + int (length t) - int (length t')))"
proof (induction t arbitrary: it)
  case Nil
  then show ?case
    unfolding len_find_next.simps [of w "[]" it] find_next.simps [of w "[]"]
    by (simp add: sb_advance)
next
  case (Cons b t)
  then have t: "single_byte_units t" by (simp add: sb_Cons)
  have adv: "CodePointAdvance (b # t) = (t \<noteq> [], t)"
    using sb_advance [OF Cons.prems] by simp
  note unfold = len_find_next.simps [of w "b # t" it] find_next.simps [of w "b # t"]
  show ?case
  proof (cases "CodePointCompare w (b # t)")
    case True
    then show ?thesis unfolding unfold by simp
  next
    case False
    with adv Cons.IH [OF t, of "it + 1"] show ?thesis
      unfolding unfold by (auto split: option.splits)
  qed
qed

lemma sb_len_next_non_star:
  "single_byte_units w \<Longrightarrow> i + int (length (tl w)) = L \<Longrightarrow>
   (case len_next_non_star L w i of
      None \<Rightarrow> next_non_star w = []
    | Some (w', i') \<Rightarrow> w' = next_non_star w \<and> (w' \<noteq> [] \<longrightarrow> i' + int (length w') = L))"
proof (induction w arbitrary: i)
  case Nil
  then show ?case
    unfolding len_next_non_star.simps [of L "[]" i] next_non_star.simps [of "[]"]
    by (simp add: STAR_def)
next
  case (Cons b w)
  then have w: "single_byte_units w" by (simp add: sb_Cons)
  note unfold = len_next_non_star.simps [of L "b # w" i] next_non_star.simps [of "b # w"]
  show ?case
  proof (cases "deref w = STAR")
    case False
    with Cons.prems(2) show ?thesis unfolding unfold by (simp add: Let_def)
  next
    case True
    then obtain w' where w': "w = STAR # w'" by (cases w) (auto simp: STAR_def)
    show ?thesis
    proof (cases "L \<le> i + 1")
      case True
      with Cons.prems(2) w' have "int (length w') \<le> 0" by auto
      then have "w' = []" by simp
      then have "next_non_star w = []"
        unfolding next_non_star.simps [of w] using w' by (simp add: STAR_def)
      with True \<open>deref w = STAR\<close> show ?thesis unfolding unfold by (simp add: Let_def)
    next
      case False
      from Cons.prems(2) w' have "(i + 1) + int (length (tl w)) = L" by simp
      from Cons.IH [OF w this] False \<open>deref w = STAR\<close> show ?thesis
        unfolding unfold by (auto simp: Let_def split: option.splits)
    qed
  qed
qed

lemma sb_len_skip_questions:
  "len_skip_questions ws ts iws its =
     (case skip_questions ws ts of
        (ws', ts') \<Rightarrow>
          (ws', ts', iws + int (length ws) - int (length ws'),
           its + int (length ws) - int (length ws')))"
proof (induction ws arbitrary: ts iws its)
  case Nil
  show ?case
    unfolding len_skip_questions.simps [of "[]" ts iws its] skip_questions.simps [of "[]" ts]
    by (simp add: QMARK_def)
next
  case (Cons b ws)
  note unfold = len_skip_questions.simps [of "b # ws" ts iws its]
    skip_questions.simps [of "b # ws" ts]
  show ?case
  proof (cases "b = QMARK")
    case True
    with Cons [of "tl ts" "iws + 1" "its + 1"] show ?thesis
      unfolding unfold by (auto split: prod.splits)
  next
    case False
    then show ?thesis unfolding unfold by simp
  qed
qed

lemma sb_len_retry:
  "single_byte_units ts \<Longrightarrow> (ts \<noteq> [] \<longrightarrow> its + int (length ts) \<le> LT) \<Longrightarrow>
   (case retry w ts of
      None \<Rightarrow> len_retry LT w ts its = None
    | Some ts' \<Rightarrow>
        (\<exists>its'. len_retry LT w ts its = Some (ts', its') \<and>
                (ts' \<noteq> [] \<longrightarrow> its' + int (length ts') \<le> LT)))"
proof (induction ts arbitrary: its)
  case Nil
  then show ?case
    unfolding len_retry.simps [of LT w "[]" its] retry.simps [of w "[]"]
    by (simp add: sb_advance_compare)
next
  case (Cons b ts)
  then have ts: "single_byte_units ts" by (simp add: sb_Cons)
  have ac: "CodePointAdvanceAndCompare w (b # ts) = (CodePointCompare w ts, ts)"
    using sb_advance_compare [OF Cons.prems(1)] by simp
  from Cons.prems(2) have le: "ts \<noteq> [] \<longrightarrow> (its + 1) + int (length ts) \<le> LT" by simp
  note unfold = len_retry.simps [of LT w "b # ts" its] retry.simps [of w "b # ts"]
  show ?case
  proof (cases "CodePointCompare w ts")
    case True
    with ac le show ?thesis unfolding unfold by auto
  next
    case False
    show ?thesis
    proof (cases "ts = []")
      case True
      with False ac show ?thesis unfolding unfold by simp
    next
      case nonempty: False
      with sb_deref [OF ts] have nz: "deref ts \<noteq> 0" by simp
      from nonempty le have "\<not> LT \<le> its + 1" by (cases ts) auto
      with False ac nz Cons.IH [OF ts le] show ?thesis
        unfolding unfold by (auto split: option.splits)
    qed
  qed
qed


lemma sb_drop: "single_byte_units s \<Longrightarrow> single_byte_units (drop k s)"
  by (auto simp: single_byte_units_def dest: in_set_dropD)

lemma sb_skip_stars: "single_byte_units w \<Longrightarrow> single_byte_units (skip_stars w)"
proof (induction w)
  case Nil
  then show ?case unfolding skip_stars.simps [of "[]"] by (simp add: sb_advance)
next
  case (Cons b w)
  then have "single_byte_units w" by (simp add: sb_Cons)
  with Cons.IH sb_advance [OF Cons.prems] show ?case
    unfolding skip_stars.simps [of "b # w"] by simp
qed

lemma sb_next_non_star: "single_byte_units w \<Longrightarrow> single_byte_units (next_non_star w)"
proof (induction w)
  case Nil
  then show ?case unfolding next_non_star.simps [of "[]"] by (simp add: STAR_def)
next
  case (Cons b w)
  then have "single_byte_units w" by (simp add: sb_Cons)
  with Cons.IH show ?case
    unfolding next_non_star.simps [of "b # w"] by (simp add: Let_def)
qed

lemma sb_find_next:
  "single_byte_units t \<Longrightarrow> find_next w t = Some t' \<Longrightarrow> single_byte_units t'"
proof (induction t)
  case Nil
  then show ?case unfolding find_next.simps [of w "[]"]
    by (auto simp: sb_advance split: if_splits)
next
  case (Cons b t)
  then have "single_byte_units t" by (simp add: sb_Cons)
  with Cons.IH Cons.prems sb_advance [OF Cons.prems(1)] show ?case
    unfolding find_next.simps [of w "b # t"] by (auto split: if_splits)
qed

lemma sb_retry:
  "single_byte_units ts \<Longrightarrow> retry w ts = Some ts' \<Longrightarrow> single_byte_units ts'"
proof (induction ts)
  case Nil
  then show ?case unfolding retry.simps [of w "[]"]
    by (auto simp: sb_advance_compare split: if_splits)
next
  case (Cons b ts)
  then have "single_byte_units ts" by (simp add: sb_Cons)
  with Cons.IH Cons.prems sb_advance_compare [OF Cons.prems(1), of w] show ?case
    unfolding retry.simps [of w "b # ts"] by (auto split: if_splits)
qed

lemma limit_reached_wild:
  "single_byte_units w \<Longrightarrow> (w \<noteq> [] \<longrightarrow> iw + int (length w) = L) \<Longrightarrow>
   (L \<le> iw \<or> deref w = 0) \<longleftrightarrow> deref w = 0"
  by (cases w) (auto simp: sb_Cons)

lemma limit_reached_tame:
  "single_byte_units t \<Longrightarrow> (t \<noteq> [] \<longrightarrow> it + int (length t) \<le> LT) \<Longrightarrow>
   (LT \<le> it \<or> deref t = 0) \<longleftrightarrow> deref t = 0"
  by (cases t) (auto simp: sb_Cons)

lemma sb_len_end_check:
  assumes "counters_agree L LT (w, t, iw, it, ws, ts, iws, its)"
  shows "case len_end_check L LT (w, t, iw, it, ws, ts, iws, its) of
           Inl b \<Rightarrow> end_check (w, t, ws, ts) = Inl b
         | Inr s' \<Rightarrow> end_check (w, t, ws, ts) = Inr (pointers s') \<and> counters_agree L LT s'"
proof -
  from assms have sb: "single_byte_units w" "single_byte_units t"
    and cw: "w \<noteq> [] \<longrightarrow> iw + int (length w) = L"
    and ct: "t \<noteq> [] \<longrightarrow> it + int (length t) \<le> LT" by simp_all
  note lw = limit_reached_wild [OF sb(1) cw] and lt = limit_reached_tame [OF sb(2) ct]
  show ?thesis
  proof (cases "deref t = 0")
    case True
    with lw lt show ?thesis by simp
  next
    case False
    have "tl w \<noteq> [] \<longrightarrow> (iw + 1) + int (length (tl w)) = L"
      using cw by (cases w) auto
    moreover have "tl t \<noteq> [] \<longrightarrow> (it + 1) + int (length (tl t)) \<le> LT"
      using ct by (cases t) auto
    ultimately show ?thesis
      using False lt assms sb_tl [OF sb(1)] sb_tl [OF sb(2)]
      by (simp add: sb_advance [OF sb(1)] sb_advance [OF sb(2)])
  qed
qed


lemma sb_len_resume_body:
  assumes agree: "counters_agree L LT (w, t, iw, it, ws, ts, iws, its)"
  shows "case len_resume_body L LT (w, t, iw, it, ws, ts, iws, its) of
           Inl b \<Rightarrow> resume_body (w, t, ws, ts) = Inl b
         | Inr s' \<Rightarrow> resume_body (w, t, ws, ts) = Inr (pointers s') \<and> counters_agree L LT s'"
proof -
  from agree have sb: "single_byte_units w" "single_byte_units t"
      "single_byte_units ws" "single_byte_units ts"
    and cw: "w \<noteq> [] \<longrightarrow> iw + int (length w) = L"
    and cws: "ws \<noteq> [] \<longrightarrow> iws + int (length ws) = L"
    and ct: "t \<noteq> [] \<longrightarrow> it + int (length t) \<le> LT"
    and cts: "ts \<noteq> [] \<longrightarrow> its + int (length ts) \<le> LT" by simp_all
  note lt = limit_reached_tame [OF sb(2) ct]
  show ?thesis
  proof (cases "deref w = STAR")
    case star: True
    then have "w \<noteq> []" by (rule deref_STAR_nonempty)
    with cw have "(iw + 1) + int (length (tl w)) = L" by (cases w) auto
    note nn = sb_len_next_non_star [OF sb(1) this]
    show ?thesis
    proof (cases "len_next_non_star L w (iw + 1)")
      case None
      with nn have "next_non_star w = []" by simp
      with star None show ?thesis by (simp add: Let_def)
    next
      case (Some a)
      obtain w1 iw1 where a: "a = (w1, iw1)" by (cases a)
      with nn Some have w1: "w1 = next_non_star w"
        and cw1: "w1 \<noteq> [] \<longrightarrow> iw1 + int (length w1) = L" by auto
      from w1 sb(1) have sbw1: "single_byte_units w1" by (simp add: sb_next_non_star)
      note lw1 = limit_reached_wild [OF sbw1 cw1]
      have lenb: "len_resume_body L LT (w, t, iw, it, ws, ts, iws, its) =
        (if deref w1 = 0 then Inl True
         else if deref t = 0 then Inl False
         else (case (if deref w1 \<noteq> QMARK then len_find_next w1 t it else Some (t, it)) of
                 None \<Rightarrow> Inl False
               | Some (t1, it1) \<Rightarrow>
                   len_end_check L LT (w1, t1, iw1, it1, w1, t1, iw1, it1)))"
        using star Some a lw1 lt by (simp del: len_end_check.simps)
      have unb: "resume_body (w, t, ws, ts) =
        (if deref w1 = 0 then Inl True
         else if deref t = 0 then Inl False
         else (case (if deref w1 \<noteq> QMARK then find_next w1 t else Some t) of
                 None \<Rightarrow> Inl False
               | Some t1 \<Rightarrow> end_check (w1, t1, w1, t1)))"
        using star unfolding w1 by (simp add: Let_def del: end_check.simps)
      show ?thesis
      proof (cases "deref w1 = 0 \<or> deref t = 0")
        case True
        then show ?thesis unfolding lenb unb by auto
      next
        case False
        then have tn: "t \<noteq> []" by auto
        define r where "r = (if deref w1 \<noteq> QMARK then find_next w1 t else Some t)"
        define lr where
          "lr = (if deref w1 \<noteq> QMARK then len_find_next w1 t it else Some (t, it))"
        have rel: "case r of None \<Rightarrow> lr = None
                   | Some t1 \<Rightarrow> lr = Some (t1, it + int (length t) - int (length t1))"
          using sb_len_find_next [OF sb(2), of w1 it]
          unfolding r_def lr_def by (auto split: option.splits)
        show ?thesis
        proof (cases r)
          case None
          with rel have "lr = None" by simp
          with None False show ?thesis unfolding lenb unb r_def [symmetric] lr_def [symmetric]
            by simp
        next
          case (Some t1)
          define it1 where "it1 = it + int (length t) - int (length t1)"
          from Some rel have lrs: "lr = Some (t1, it1)" by (simp add: it1_def)
          from Some sb(2) have sbt1: "single_byte_units t1"
            by (auto simp: r_def split: if_splits dest: sb_find_next)
          from ct tn have "it1 + int (length t1) \<le> LT" by (simp add: it1_def)
          with sbw1 sbt1 cw1 have
            "counters_agree L LT (w1, t1, iw1, it1, w1, t1, iw1, it1)" by simp
          note ec = sb_len_end_check [OF this]
          have "len_resume_body L LT (w, t, iw, it, ws, ts, iws, its) =
                  len_end_check L LT (w1, t1, iw1, it1, w1, t1, iw1, it1)"
            using lrs False unfolding lenb lr_def [symmetric]
            by (simp del: len_end_check.simps)
          moreover have "resume_body (w, t, ws, ts) = end_check (w1, t1, w1, t1)"
            using Some False unfolding unb r_def [symmetric]
            by (simp del: end_check.simps)
          ultimately show ?thesis using ec by (simp only:)
        qed
      qed
    qed
  next
    case nostar: False
    show ?thesis
    proof (cases "\<not> CodePointCompare w t \<and> deref w \<noteq> QMARK")
      case mismatch: True
      show ?thesis
      proof (cases "deref t = 0")
        case True
        with nostar mismatch lt show ?thesis by simp
      next
        case tnz: False
        obtain ws1 ts1 where sq: "skip_questions ws ts = (ws1, ts1)"
          by (cases "skip_questions ws ts")
        define n where "n = length (takeWhile (\<lambda>b. b = QMARK) ws)"
        from sq skip_questions_bytes [of ws ts] have
          ws1: "ws1 = drop n ws" and ts1: "ts1 = drop n ts" by (simp_all add: n_def)
        have nle: "n \<le> length ws" unfolding n_def by (rule length_takeWhile_le)
        define k where "k = int (length ws) - int (length ws1)"
        from ws1 nle have k: "k = int n" by (simp add: k_def)
        have lsq: "len_skip_questions ws ts iws its = (ws1, ts1, iws + k, its + k)"
          using sb_len_skip_questions [of ws ts iws its] sq by (simp add: k_def)
        from sb ws1 ts1 have sb1: "single_byte_units ws1" "single_byte_units ts1"
          by (simp_all add: sb_drop)
        have cws1: "ws1 \<noteq> [] \<longrightarrow> (iws + k) + int (length ws1) = L"
          using cws ws1 k by auto
        have cts1: "ts1 \<noteq> [] \<longrightarrow> (its + k) + int (length ts1) \<le> LT"
          using cts ts1 k by auto
        note rr = sb_len_retry [OF sb1(2) cts1, of ws1]
        have lenb: "len_resume_body L LT (w, t, iw, it, ws, ts, iws, its) =
          (case len_retry LT ws1 ts1 (its + k) of
             None \<Rightarrow> Inl False
           | Some (ts2, its2) \<Rightarrow>
               len_end_check L LT (ws1, ts2, iws + k, its2, ws1, ts2, iws + k, its2))"
          using nostar mismatch tnz lt lsq by (simp add: Let_def del: len_end_check.simps)
        have unb: "resume_body (w, t, ws, ts) =
          (case retry ws1 ts1 of
             None \<Rightarrow> Inl False
           | Some ts2 \<Rightarrow> end_check (ws1, ts2, ws1, ts2))"
          using nostar mismatch tnz sq by (simp add: Let_def del: end_check.simps)
        show ?thesis
        proof (cases "retry ws1 ts1")
          case None
          with rr show ?thesis unfolding lenb unb by simp
        next
          case (Some ts2)
          with rr obtain its2 where
            lr: "len_retry LT ws1 ts1 (its + k) = Some (ts2, its2)"
            and cts2: "ts2 \<noteq> [] \<longrightarrow> its2 + int (length ts2) \<le> LT" by auto
          from Some sb1(2) have "single_byte_units ts2" by (rule sb_retry [rotated])
          with sb1 cws1 cts2 have
            "counters_agree L LT (ws1, ts2, iws + k, its2, ws1, ts2, iws + k, its2)" by simp
          note ec = sb_len_end_check [OF this]
          have "len_resume_body L LT (w, t, iw, it, ws, ts, iws, its) =
                  len_end_check L LT (ws1, ts2, iws + k, its2, ws1, ts2, iws + k, its2)"
            using lr unfolding lenb by (simp del: len_end_check.simps)
          moreover have "resume_body (w, t, ws, ts) = end_check (ws1, ts2, ws1, ts2)"
            using Some unfolding unb by (simp del: end_check.simps)
          ultimately show ?thesis using ec by (simp only:)
        qed
      qed
    next
      case False
      with nostar have
        "len_resume_body L LT (w, t, iw, it, ws, ts, iws, its) =
           len_end_check L LT (w, t, iw, it, ws, ts, iws, its)"
        "resume_body (w, t, ws, ts) = end_check (w, t, ws, ts)"
        by (auto simp del: len_end_check.simps end_check.simps)
      with sb_len_end_check [OF agree] show ?thesis by (simp only:)
    qed
  qed
qed


lemma sb_len_resume_loop:
  "counters_agree L LT s \<Longrightarrow> len_resume_loop L LT s = resume_loop (pointers s)"
proof (induction s rule: wf_induct_rule [OF wf_len_resume_order])
  case (1 s)
  obtain w t iw it ws ts iws its where s: "s = (w, t, iw, it, ws, ts, iws, its)"
    by (cases s) auto
  note pass = sb_len_resume_body [OF "1.prems" [unfolded s]]
  show ?case
  proof (cases "len_resume_body L LT s")
    case (Inl b)
    with pass s have "resume_body (pointers s) = Inl b" by simp
    with Inl show ?thesis
      by (simp add: len_resume_loop.simps [of L LT s] resume_loop.simps [of "pointers s"])
  next
    case (Inr s')
    with pass s have unb: "resume_body (pointers s) = Inr (pointers s')"
      and agree: "counters_agree L LT s'" by simp_all
    from Inr have "(s', s) \<in> len_resume_order" by (rule len_resume_body_decreases)
    from "1.IH" [OF this agree] Inr unb show ?thesis
      by (simp add: len_resume_loop.simps [of L LT s] resume_loop.simps [of "pointers s"])
  qed
qed

lemma sb_len_scan_loop:
  "single_byte_units w \<Longrightarrow> single_byte_units t \<Longrightarrow>
   (w \<noteq> [] \<longrightarrow> i + int (length w) = L) \<Longrightarrow> (t \<noteq> [] \<longrightarrow> i + int (length t) \<le> LT) \<Longrightarrow>
   len_scan_loop L LT w t i = scan_loop w t"
proof (induction t arbitrary: w i)
  case Nil
  show ?case
  proof (cases "w = []")
    case True
    then show ?thesis
      unfolding len_scan_loop.simps [of L LT w "[]" i] scan_loop.simps [of w "[]"] by simp
  next
    case False
    with Nil.prems(3) have "i < L" by (cases w) auto
    moreover from False sb_deref [OF Nil.prems(1)] have "deref w \<noteq> 0" by simp
    moreover from False Nil.prems have "len_trailing_stars L w i = trailing_stars w"
      by (simp add: sb_len_trailing_stars)
    ultimately show ?thesis
      unfolding len_scan_loop.simps [of L LT w "[]" i] scan_loop.simps [of w "[]"] by simp
  qed
next
  case (Cons b t)
  let ?t = "b # t"
  from Cons.prems(2) have sbt: "single_byte_units t" and bnz: "b \<noteq> 0"
    by (simp_all add: sb_Cons)
  from Cons.prems(4) have lim: "\<not> (LT \<le> i \<or> deref ?t = 0)" using bnz by auto
  note unfold = len_scan_loop.simps [of L LT w ?t i] scan_loop.simps [of w ?t]
  show ?case
  proof (cases "w = []")
    case True
    with bnz lim show ?thesis unfolding unfold
      by (simp add: STAR_def QMARK_def CodePointCompare_def)
  next
    case wn: False
    with Cons.prems(3) have iw: "i + int (length w) = L" and notlim: "\<not> L \<le> i"
      by (cases w; auto)+
    show ?thesis
    proof (cases "deref w = STAR")
      case star: True
      obtain w1 i1 where ls: "len_skip_stars L w i = (w1, i1)"
        by (cases "len_skip_stars L w i")
      with sb_len_skip_stars [OF Cons.prems(1) iw] have w1: "w1 = skip_stars w"
        and cw1: "w1 \<noteq> [] \<longrightarrow> i1 + int (length w1) = L" by auto
      from w1 Cons.prems(1) have sbw1: "single_byte_units w1" by (simp add: sb_skip_stars)
      define r where "r = (if deref w1 \<noteq> QMARK then find_next w1 ?t else Some ?t)"
      define lr where
        "lr = (if deref w1 \<noteq> QMARK then len_find_next w1 ?t i else Some (?t, i))"
      have rel: "case r of None \<Rightarrow> lr = None
                 | Some t1 \<Rightarrow> lr = Some (t1, i + int (length ?t) - int (length t1))"
        using sb_len_find_next [OF Cons.prems(2), of w1 i]
        unfolding r_def lr_def by (auto split: option.splits)
      have lenb: "len_scan_loop L LT w ?t i =
        (if deref w1 = 0 then Some True
         else case lr of None \<Rightarrow> Some False
              | Some (t1, it1) \<Rightarrow>
                  len_resume_loop L LT (w1, t1, i1, it1, w1, t1, i1, it1))"
        using lim notlim star ls unfolding unfold lr_def by (simp add: Let_def)
      have unb: "scan_loop w ?t =
        (if deref w1 = 0 then Some True
         else case r of None \<Rightarrow> Some False
              | Some t1 \<Rightarrow> resume_loop (w1, t1, w1, t1))"
        using bnz star unfolding unfold r_def w1 by (simp add: Let_def)
      show ?thesis
      proof (cases r)
        case None
        with rel have "lr = None" by simp
        with None show ?thesis unfolding lenb unb by simp
      next
        case (Some t1)
        define it1 where "it1 = i + int (length ?t) - int (length t1)"
        from Some rel have lrs: "lr = Some (t1, it1)" by (simp add: it1_def)
        from Some Cons.prems(2) have sbt1: "single_byte_units t1"
          by (auto simp: r_def split: if_splits dest: sb_find_next)
        from Cons.prems(4) have "it1 + int (length t1) \<le> LT" by (simp add: it1_def)
        with sbw1 sbt1 cw1 have
          "counters_agree L LT (w1, t1, i1, it1, w1, t1, i1, it1)" by simp
        from sb_len_resume_loop [OF this] Some lrs show ?thesis
          unfolding lenb unb by simp
      qed
    next
      case nostar: False
      show ?thesis
      proof (cases "\<not> CodePointCompare w ?t \<and> deref w \<noteq> QMARK")
        case True
        with lim notlim nostar bnz show ?thesis unfolding unfold by simp
      next
        case False
        have "tl w \<noteq> [] \<longrightarrow> (i + 1) + int (length (tl w)) = L"
          using iw by (cases w) auto
        moreover have "t \<noteq> [] \<longrightarrow> (i + 1) + int (length t) \<le> LT"
          using Cons.prems(4) by auto
        ultimately have "len_scan_loop L LT (tl w) t (i + 1) = scan_loop (tl w) t"
          using Cons.IH [OF sb_tl [OF Cons.prems(1)] sbt] by blast
        with False lim notlim nostar bnz show ?thesis unfolding unfold
          by (auto simp: sb_advance [OF Cons.prems(1)] sb_advance [OF Cons.prems(2)])
      qed
    qed
  qed
qed

lemma single_byte_matchers_agree:
  assumes "single_byte_units pWild" and "single_byte_units pTame"
  shows "FastWildLenCompareUtf8 pWild pTame
           (int (CodePointCount pWild)) (int (CodePointCount pTame)) =
         FastWildCompareUtf8 pWild pTame"
  using sb_len_scan_loop [OF assms, of 0 "int (length pWild)" "int (length pTame)"]
  by (simp add: FastWildLenCompareUtf8_def FastWildCompareUtf8_def sb_CodePointCount [OF assms(1)]
      sb_CodePointCount [OF assms(2)])

text \<open>
  C1 (the code departs from the claim): beyond single-byte units the agreement fails.  The
  bounded matcher has the same bytewise skip of \<open>?\<close>, and its counter for the saved subject
  position grows by one per \<open>?\<close> all the same, so the counter runs ahead of the pointer.
  With the pattern \<open>*?\<close> and the subject \<open>C3 A9 61\<close> (a two-byte unit, then \<open>a\<close>), both
  of two units, the unbounded matcher returns true and the bounded matcher, called with the
  true unit counts, returns false.
\<close>

theorem bounded_differs_from_unbounded:
  "CodePointCount (ascii ''*?'') = 2 \<and>
   CodePointCount ([0xC3, 0xA9] @ ascii ''a'') = 2 \<and>
   FastWildCompareUtf8 (ascii ''*?'') ([0xC3, 0xA9] @ ascii ''a'') = Some True \<and>
   FastWildLenCompareUtf8 (ascii ''*?'') ([0xC3, 0xA9] @ ascii ''a'')
     (int (CodePointCount (ascii ''*?'')))
     (int (CodePointCount ([0xC3, 0xA9] @ ascii ''a''))) = Some False"
  by code_simp

end
